theory Spec2Isabelle
  imports Main
begin

section \<open>Syntax tree nodes\<close>

text \<open>
  The node kinds that \<^verbatim>\<open>src/utils/expressionTo.js\<close> distinguishes with
  \<^verbatim>\<open>types.X.check(node)\<close>, with the fields the code reads.  A \<^verbatim>\<open>NodePath\<close> is
  identified with its node: \<^verbatim>\<open>path.get('callee')\<close> is the callee child, and so on.  The
  one path that is not the path of a node, that of an elided array element, is treated
  where the array branch of the loop is defined.

  A member expression carries \<^verbatim>\<open>object\<close>, \<^verbatim>\<open>property\<close> and the flag \<^verbatim>\<open>computed\<close>.
  When \<^verbatim>\<open>computed\<close> is false the property of a well-formed tree is an identifier and the
  code reads only \<^verbatim>\<open>node.property.name\<close>, so the static property is kept as that name;
  when \<^verbatim>\<open>computed\<close> is true the property is an arbitrary key expression.

  \<open>Literal raw\<close> keeps the field \<^verbatim>\<open>raw\<close>, the source text of the literal, the only field
  of a literal that the code reads.  \<open>OtherNode kind\<close> stands for every node kind that
  none of the checks accepts.

  The elements of an array literal are optional: \<open>None\<close> is an elided element, as the
  second one of \<^verbatim>\<open>[1, , 2]\<close>, which the tree holds as \<^verbatim>\<open>null\<close>.
\<close>

datatype property = Static string | Computed node
and node =
    CallExpression node "node list"
  | MemberExpression node property
  | Identifier string
  | Literal string
  | ThisExpression
  | ObjectExpression "(node \<times> node) list"
  | ArrayExpression "node option list"
  | OtherNode string

section \<open>expressionTo.js\<close>

text \<open>\<^verbatim>\<open>Array.prototype.join(sep)\<close> on an array of strings.\<close>

fun join :: "string \<Rightarrow> string list \<Rightarrow> string" where
  "join sep [] = []"
| "join sep [x] = x"
| "join sep (x # y # ys) = x @ sep @ join sep (y # ys)"

text \<open>
  The only exception that the code of this module can raise by itself: reading a property
  of \<^verbatim>\<open>null\<close>.
\<close>

datatype js_error = TypeError

text \<open>
  \<^verbatim>\<open>Array.prototype.map\<close> with a callback that may raise (\<open>Some (Inl e)\<close>) or fail to return
  (\<open>None\<close>): the first element on which the callback does not return a value stops the
  whole map.
\<close>

fun map_returning ::
  "('a \<Rightarrow> (js_error + 'b) option) \<Rightarrow> 'a list \<Rightarrow> (js_error + 'b list) option" where
  "map_returning f [] = Some (Inr [])"
| "map_returning f (x # xs) =
     (case f x of
        None \<Rightarrow> None
      | Some (Inl e) \<Rightarrow> Some (Inl e)
      | Some (Inr y) \<Rightarrow>
          (case map_returning f xs of
             None \<Rightarrow> None
           | Some (Inl e) \<Rightarrow> Some (Inl e)
           | Some (Inr ys) \<Rightarrow> Some (Inr (y # ys))))"

text \<open>
  \<^verbatim>\<open>toArray\<close> and \<^verbatim>\<open>toString\<close> call each other, and \<^verbatim>\<open>toArray\<close> calls itself on
  whatever \<^verbatim>\<open>resolveToValue\<close> returns, a function that is imported from another module
  and is therefore a parameter \<open>rv\<close> here (\<open>None\<close> is its \<^verbatim>\<open>undefined\<close>).  Nothing in the
  code bounds that recursion, so the functions take fuel: every iteration of the
  \<^verbatim>\<open>while\<close> loop and every nested call uses one unit.  A call has three outcomes:
  \<open>Some (Inr v)\<close>, it returns \<open>v\<close>; \<open>Some (Inl e)\<close>, it raises \<open>e\<close>; \<open>None\<close>, the fuel ran
  out before it did either.

  \<open>drain k rv parts result\<close> is the \<^verbatim>\<open>while (parts.length > 0)\<close> loop on the queue
  \<open>parts\<close> and the accumulator \<open>result\<close>: \<^verbatim>\<open>parts.shift()\<close> takes the head,
  \<^verbatim>\<open>parts.push\<close> appends at the end, \<^verbatim>\<open>result.push\<close> and \<^verbatim>\<open>result.concat\<close> append to
  the accumulator.  The branches are in the order of the source's \<^verbatim>\<open>if\<close> chain.

  A path is identified with its node, except for the path of an elided array element.
  Its value is \<^verbatim>\<open>null\<close> and its \<^verbatim>\<open>node\<close> is the enclosing array literal, so \<^verbatim>\<open>toString\<close> of
  that path comes to the array branch again, where \<^verbatim>\<open>path.get('elements')\<close> reads a
  property of \<^verbatim>\<open>null\<close>: the call raises a \<^verbatim>\<open>TypeError\<close>.
\<close>

fun drain ::
  "nat \<Rightarrow> (node \<Rightarrow> node option) \<Rightarrow> node list \<Rightarrow> string list \<Rightarrow> (js_error + string list) option"
and toArray :: "nat \<Rightarrow> (node \<Rightarrow> node option) \<Rightarrow> node \<Rightarrow> (js_error + string list) option"
and toString :: "nat \<Rightarrow> (node \<Rightarrow> node option) \<Rightarrow> node \<Rightarrow> (js_error + string) option"
where
  "drain 0 rv parts result = None"
| "drain (Suc k) rv [] result = Some (Inr result)"
| "drain (Suc k) rv (path # parts) result =
    (case path of
       CallExpression callee args \<Rightarrow> drain k rv (parts @ [callee]) result
     | MemberExpression obj prop \<Rightarrow>
        (case prop of
           Computed key \<Rightarrow>
             (case rv key of
                Some resolvedPath \<Rightarrow>
                  (case toArray k rv resolvedPath of
                     None \<Rightarrow> None
                   | Some (Inl e) \<Rightarrow> Some (Inl e)
                   | Some (Inr segs) \<Rightarrow> drain k rv (parts @ [obj]) (result @ segs))
              | None \<Rightarrow> drain k rv (parts @ [obj]) (result @ [''<computed>'']))
         | Static name \<Rightarrow> drain k rv (parts @ [obj]) (result @ [name]))
     | Identifier name \<Rightarrow> drain k rv parts (result @ [name])
     | Literal raw \<Rightarrow> drain k rv parts (result @ [raw])
     | ThisExpression \<Rightarrow> drain k rv parts (result @ [''this''])
     | ObjectExpression props \<Rightarrow>
        (case map_returning
                (\<lambda>(key, val).
                   case toString k rv key of
                     None \<Rightarrow> None
                   | Some (Inl e) \<Rightarrow> Some (Inl e)
                   | Some (Inr ks) \<Rightarrow>
                       (case toString k rv val of
                          None \<Rightarrow> None
                        | Some (Inl e) \<Rightarrow> Some (Inl e)
                        | Some (Inr vs) \<Rightarrow> Some (Inr (ks @ '': '' @ vs))))
                props of
           None \<Rightarrow> None
         | Some (Inl e) \<Rightarrow> Some (Inl e)
         | Some (Inr properties) \<Rightarrow>
             drain k rv parts (result @ [''{'' @ join '', '' properties @ ''}'']))
     | ArrayExpression elems \<Rightarrow>
        (case map_returning
                (\<lambda>element.
                   case element of
                     None \<Rightarrow> Some (Inl TypeError)
                   | Some elementPath \<Rightarrow> toString k rv elementPath)
                elems of
           None \<Rightarrow> None
         | Some (Inl e) \<Rightarrow> Some (Inl e)
         | Some (Inr strs) \<Rightarrow> drain k rv parts (result @ [''['' @ join '', '' strs @ '']'']))
     | OtherNode kind \<Rightarrow> drain k rv parts result)"
| "toArray k rv path =
    (case drain k rv [path] [] of
       None \<Rightarrow> None
     | Some (Inl e) \<Rightarrow> Some (Inl e)
     | Some (Inr result) \<Rightarrow> Some (Inr (rev result)))"
| "toString k rv path =
    (case toArray k rv path of
       None \<Rightarrow> None
     | Some (Inl e) \<Rightarrow> Some (Inl e)
     | Some (Inr segs) \<Rightarrow> Some (Inr (join ''.'' segs)))"

section \<open>parse.js\<close>

definition ERROR_MISSING_DEFINITION :: string where
  "ERROR_MISSING_DEFINITION = ''No suitable component definition found.''"

text \<open>
  What a call can raise: \<open>Error m\<close> is \<^verbatim>\<open>new Error(m)\<close> thrown by \<^verbatim>\<open>parse\<close> itself;
  \<open>Thrown x\<close> is a value \<open>x\<close> thrown inside the parser, the resolver or a handler, which
  \<^verbatim>\<open>parse\<close> does not catch.
\<close>

datatype 'x error = Error string | Thrown 'x

text \<open>
  What a resolver returns: an array of definitions (\<^verbatim>\<open>Array.isArray\<close>), a single truthy
  node, or a falsy value.
\<close>

datatype 'n resolved = NodeArray "'n list" | SingleNode 'n | Falsy

text \<open>
  What \<^verbatim>\<open>parse\<close> returns: one documentation object, an array of them, or \<^verbatim>\<open>undefined\<close>
  (index 0 of an empty array).
\<close>

datatype 'o parse_result = Object 'o | Objects "'o list" | Undefined

text \<open>
  The modules that \<^verbatim>\<open>parse.js\<close> imports are parameters: \<open>recast_parse src options\<close> is
  \<^verbatim>\<open>recast.parse(src, {parser: buildParser(options)}).program\<close>, which may throw;
  \<open>new_Documentation\<close> is the record that \<^verbatim>\<open>new Documentation()\<close> creates;
  \<open>toObject\<close> and \<open>postProcessDocumentation\<close> are the two normalisation steps.
\<close>

record ('c, 'p, 'd, 'o, 'x) collaborators =
  recast_parse :: "string \<Rightarrow> 'c \<Rightarrow> 'x + 'p"
  new_Documentation :: 'd
  toObject :: "'d \<Rightarrow> 'o"
  postProcessDocumentation :: "'o \<Rightarrow> 'o"

text \<open>
  A handler mutates the documentation it is given, or throws: it maps the record and the
  definition to the updated record or to the thrown value.  A resolver maps the program
  to what it found, or throws.
\<close>

type_synonym ('d, 'n, 'x) Handler = "'d \<Rightarrow> 'n \<Rightarrow> 'x + 'd"
type_synonym ('p, 'n, 'x) Resolver = "'p \<Rightarrow> 'x + 'n resolved"

text \<open>\<^verbatim>\<open>handlers.forEach(handler => handler(documentation, componentDefinition))\<close>\<close>

fun forEach :: "('d, 'n, 'x) Handler list \<Rightarrow> 'd \<Rightarrow> 'n \<Rightarrow> 'x + 'd" where
  "forEach [] documentation componentDefinition = Inr documentation"
| "forEach (handler # handlers) documentation componentDefinition =
     (case handler documentation componentDefinition of
        Inl x \<Rightarrow> Inl x
      | Inr documentation' \<Rightarrow> forEach handlers documentation' componentDefinition)"

text \<open>\<^verbatim>\<open>Array.prototype.map\<close> with a callback that may throw.\<close>

fun map_throwing :: "('a \<Rightarrow> 'x + 'b) \<Rightarrow> 'a list \<Rightarrow> 'x + 'b list" where
  "map_throwing f [] = Inr []"
| "map_throwing f (a # as) =
     (case f a of
        Inl x \<Rightarrow> Inl x
      | Inr b \<Rightarrow> (case map_throwing f as of Inl x \<Rightarrow> Inl x | Inr bs \<Rightarrow> Inr (b # bs)))"

text \<open>The callback that \<^verbatim>\<open>executeHandlers\<close> maps over the definitions.\<close>

definition document ::
  "('c, 'p, 'd, 'o, 'x) collaborators \<Rightarrow> ('d, 'n, 'x) Handler list \<Rightarrow> 'n \<Rightarrow> 'x + 'o" where
  "document deps handlers componentDefinition =
     (case forEach handlers (new_Documentation deps) componentDefinition of
        Inl x \<Rightarrow> Inl x
      | Inr documentation \<Rightarrow>
          Inr (postProcessDocumentation deps (toObject deps documentation)))"

definition executeHandlers ::
  "('c, 'p, 'd, 'o, 'x) collaborators \<Rightarrow> ('d, 'n, 'x) Handler list \<Rightarrow> 'n list \<Rightarrow> 'x + 'o list" where
  "executeHandlers deps handlers componentDefinitions =
     map_throwing (document deps handlers) componentDefinitions"

definition parse ::
  "('c, 'p, 'd, 'o, 'x) collaborators \<Rightarrow> string \<Rightarrow> ('p, 'n, 'x) Resolver \<Rightarrow>
   ('d, 'n, 'x) Handler list \<Rightarrow> 'c \<Rightarrow> 'x error + 'o parse_result" where
  "parse deps src resolver handlers options =
     (case recast_parse deps src options of
        Inl x \<Rightarrow> Inl (Thrown x)
      | Inr program \<Rightarrow>
          (case resolver program of
             Inl x \<Rightarrow> Inl (Thrown x)
           | Inr (NodeArray componentDefinitions) \<Rightarrow>
               if length componentDefinitions = 0 then Inl (Error ERROR_MISSING_DEFINITION)
               else (case executeHandlers deps handlers componentDefinitions of
                       Inl x \<Rightarrow> Inl (Thrown x)
                     | Inr docs \<Rightarrow> Inr (Objects docs))
           | Inr (SingleNode componentDefinition) \<Rightarrow>
               (case executeHandlers deps handlers [componentDefinition] of
                  Inl x \<Rightarrow> Inl (Thrown x)
                | Inr docs \<Rightarrow> Inr (case docs of [] \<Rightarrow> Undefined | doc # _ \<Rightarrow> Object doc))
           | Inr Falsy \<Rightarrow> Inl (Error ERROR_MISSING_DEFINITION)))"

section \<open>Notions used in the statements\<close>

text \<open>
  The chain of static property accesses \<^verbatim>\<open>root.name1.name2...\<close>: each access has the
  chain so far as its object.
\<close>

definition chain :: "string \<Rightarrow> string list \<Rightarrow> node" where
  "chain root names = foldl (\<lambda>obj name. MemberExpression obj (Static name)) (Identifier root) names"

text \<open>
  A resolver is descending when the expression it returns is never larger than the key
  expression it was asked about.
\<close>

definition descending :: "(node \<Rightarrow> node option) \<Rightarrow> bool" where
  "descending rv \<longleftrightarrow> (\<forall>key resolvedPath. rv key = Some resolvedPath \<longrightarrow> size resolvedPath \<le> size key)"

text \<open>
  The nodes on which flattening a node goes on, through the queue or through a nested
  call: the callee, the object, the resolved key of a computed access, the keys and values
  of an object literal and the elements of an array literal that are not elided.
  \<open>calls rv\<close> relates each of them to the node.
\<close>

fun successors :: "(node \<Rightarrow> node option) \<Rightarrow> node \<Rightarrow> node list" where
  "successors rv (CallExpression callee args) = [callee]"
| "successors rv (MemberExpression obj (Static name)) = [obj]"
| "successors rv (MemberExpression obj (Computed key)) =
     (case rv key of None \<Rightarrow> [obj] | Some resolvedPath \<Rightarrow> [resolvedPath, obj])"
| "successors rv (ObjectExpression props) = concat (map (\<lambda>(key, val). [key, val]) props)"
| "successors rv (ArrayExpression elems) =
     concat (map (\<lambda>element. case element of None \<Rightarrow> [] | Some elementPath \<Rightarrow> [elementPath]) elems)"
| "successors rv (Identifier name) = []"
| "successors rv (Literal raw) = []"
| "successors rv ThisExpression = []"
| "successors rv (OtherNode kind) = []"

definition calls :: "(node \<Rightarrow> node option) \<Rightarrow> (node \<times> node) set" where
  "calls rv = {(m, n). m \<in> set (successors rv n)}"

text \<open>An array literal with an elided element.\<close>

definition elided :: "node \<Rightarrow> bool" where
  "elided n \<longleftrightarrow> (\<exists>elems. n = ArrayExpression elems \<and> None \<in> set elems)"

text \<open>
  The node with every call on its chain of objects and callees replaced by its callee.
\<close>

fun without_calls :: "node \<Rightarrow> node" where
  "without_calls (CallExpression callee args) = without_calls callee"
| "without_calls (MemberExpression obj prop) = MemberExpression (without_calls obj) prop"
| "without_calls (Identifier name) = Identifier name"
| "without_calls (Literal raw) = Literal raw"
| "without_calls ThisExpression = ThisExpression"
| "without_calls (ObjectExpression props) = ObjectExpression props"
| "without_calls (ArrayExpression elems) = ArrayExpression elems"
| "without_calls (OtherNode kind) = OtherNode kind"

text \<open>The resolver that resolves the one expression \<open>key\<close>, to \<open>target\<close>.\<close>

definition resolving :: "node \<Rightarrow> node \<Rightarrow> node \<Rightarrow> node option" where
  "resolving key target = (\<lambda>n. if n = key then Some target else None)"

text \<open>
  A handler that never throws is a function from the record and the definition to the
  updated record.
\<close>

definition pure_handler :: "('d \<Rightarrow> 'n \<Rightarrow> 'd) \<Rightarrow> ('d, 'n, 'x) Handler" where
  "pure_handler f = (\<lambda>documentation componentDefinition. Inr (f documentation componentDefinition))"

section \<open>Example instances\<close>

text \<open>
  A small instance on which the theorems below are exercised: the program is the source
  text itself (the parser rejects the empty text), a definition is a component name, and
  a documentation record is a pair of a display name and a description.
\<close>

definition demo_collaborators ::
  "(unit, string, string \<times> string, string \<times> string, string) collaborators" where
  "demo_collaborators =
     \<lparr> recast_parse = (\<lambda>src options. if src = [] then Inl ''SyntaxError'' else Inr src),
       new_Documentation = ([], []),
       toObject = (\<lambda>documentation. documentation),
       postProcessDocumentation = (\<lambda>obj. obj) \<rparr>"

definition displayNameHandler :: "(string \<times> string, string, string) Handler" where
  "displayNameHandler = (\<lambda>documentation componentDefinition.
     Inr (componentDefinition, snd documentation))"

definition descriptionHandler :: "(string \<times> string, string, string) Handler" where
  "descriptionHandler = (\<lambda>documentation componentDefinition.
     Inr (fst documentation, ''about '' @ fst documentation))"

definition failingHandler :: "(string \<times> string, string, string) Handler" where
  "failingHandler = (\<lambda>documentation componentDefinition.
     if componentDefinition = ''Bad'' then Inl ''boom'' else Inr documentation)"

text \<open>
  The literal node of the string \<open>s\<close> written in double quotes: its \<^verbatim>\<open>raw\<close> is the text of
  the literal in the source, the quotes included.
\<close>

definition string_literal :: "string \<Rightarrow> node" where
  "string_literal s = Literal ([CHR 0x22] @ s @ [CHR 0x22])"

text \<open>
  The access \<^verbatim>\<open>o[x]\<close>.  With \<^verbatim>\<open>var x = o[x]\<close> in scope, a resolver that follows the
  binding of \<^verbatim>\<open>x\<close> resolves the key of this access to the access itself.
\<close>

definition self_keyed :: node where
  "self_keyed = MemberExpression (Identifier ''o'') (Computed (Identifier ''x''))"

section \<open>Properties of expressionTo.js\<close>

text \<open>One step of the loop for each kind of node at the head of the queue.\<close>

lemma drain_CallExpression [simp]:
  "drain (Suc k) rv (CallExpression callee args # parts) result =
     drain k rv (parts @ [callee]) result"
  by simp

lemma drain_Static [simp]:
  "drain (Suc k) rv (MemberExpression obj (Static name) # parts) result =
     drain k rv (parts @ [obj]) (result @ [name])"
  by simp

lemma drain_Computed [simp]:
  "drain (Suc k) rv (MemberExpression obj (Computed key) # parts) result =
     (case rv key of
        Some resolvedPath \<Rightarrow>
          (case toArray k rv resolvedPath of
             None \<Rightarrow> None
           | Some (Inl e) \<Rightarrow> Some (Inl e)
           | Some (Inr segs) \<Rightarrow> drain k rv (parts @ [obj]) (result @ segs))
      | None \<Rightarrow> drain k rv (parts @ [obj]) (result @ [''<computed>'']))"
  by simp

lemma drain_Identifier [simp]:
  "drain (Suc k) rv (Identifier name # parts) result = drain k rv parts (result @ [name])"
  by simp

lemma drain_Literal [simp]:
  "drain (Suc k) rv (Literal raw # parts) result = drain k rv parts (result @ [raw])"
  by simp

lemma drain_ThisExpression [simp]:
  "drain (Suc k) rv (ThisExpression # parts) result = drain k rv parts (result @ [''this''])"
  by simp

lemma drain_ObjectExpression [simp]:
  "drain (Suc k) rv (ObjectExpression props # parts) result =
     (case map_returning
             (\<lambda>(key, val).
                case toString k rv key of
                  None \<Rightarrow> None
                | Some (Inl e) \<Rightarrow> Some (Inl e)
                | Some (Inr ks) \<Rightarrow>
                    (case toString k rv val of
                       None \<Rightarrow> None
                     | Some (Inl e) \<Rightarrow> Some (Inl e)
                     | Some (Inr vs) \<Rightarrow> Some (Inr (ks @ '': '' @ vs))))
             props of
        None \<Rightarrow> None
      | Some (Inl e) \<Rightarrow> Some (Inl e)
      | Some (Inr properties) \<Rightarrow>
          drain k rv parts (result @ [''{'' @ join '', '' properties @ ''}'']))"
  by simp

lemma drain_ArrayExpression [simp]:
  "drain (Suc k) rv (ArrayExpression elems # parts) result =
     (case map_returning
             (\<lambda>element.
                case element of
                  None \<Rightarrow> Some (Inl TypeError)
                | Some elementPath \<Rightarrow> toString k rv elementPath)
             elems of
        None \<Rightarrow> None
      | Some (Inl e) \<Rightarrow> Some (Inl e)
      | Some (Inr strs) \<Rightarrow> drain k rv parts (result @ [''['' @ join '', '' strs @ '']'']))"
  by simp

lemma drain_OtherNode [simp]:
  "drain (Suc k) rv (OtherNode kind # parts) result = drain k rv parts result"
  by simp

declare drain.simps(3) [simp del]

text \<open>More fuel does not change an outcome.\<close>

lemma map_returning_cong_Some:
  "map_returning f xs = Some out \<Longrightarrow>
   (\<And>x y. x \<in> set xs \<Longrightarrow> f x = Some y \<Longrightarrow> g x = Some y) \<Longrightarrow>
   map_returning g xs = Some out"
proof (induction xs arbitrary: out)
  case Nil
  then show ?case by simp
next
  case (Cons x xs)
  from Cons.prems(1) obtain y where fx: "f x = Some y"
    by (cases "f x") auto
  with Cons.prems(2) have gx: "g x = Some y" by simp
  show ?case
  proof (cases y)
    case (Inl e)
    with fx gx Cons.prems(1) show ?thesis by simp
  next
    case (Inr v)
    with fx Cons.prems(1) obtain rest where r: "map_returning f xs = Some rest"
      by (cases "map_returning f xs") auto
    then have "map_returning g xs = Some rest"
      using Cons.prems(2) by (intro Cons.IH) auto
    with r fx gx Inr Cons.prems(1) show ?thesis by simp
  qed
qed

lemma drain_Suc:
  "drain k rv parts res = Some out \<Longrightarrow> drain (Suc k) rv parts res = Some out"
proof (induction k arbitrary: parts res out)
  case 0
  then show ?case by simp
next
  case (Suc k)
  show ?case
  proof (cases parts)
    case Nil
    with Suc.prems show ?thesis by simp
  next
    case (Cons path rest)
    note IH = Suc.IH
    have ta: "toArray (Suc k) rv x = Some y" if "toArray k rv x = Some y" for x y
      using that IH [of "[x]" "[]"] by (auto split: option.splits sum.splits)
    have ts: "toString (Suc k) rv x = Some y" if "toString k rv x = Some y" for x y
      using that ta [of x] by (auto simp del: toArray.simps split: option.splits sum.splits)
    show ?thesis
    proof (cases path)
      case (CallExpression callee args)
      with Cons Suc.prems IH show ?thesis by simp
    next
      case (MemberExpression ob pr)
      show ?thesis
      proof (cases pr)
        case (Static name)
        with MemberExpression Cons Suc.prems IH show ?thesis by simp
      next
        case (Computed key)
        show ?thesis
        proof (cases "rv key")
          case None
          with Computed MemberExpression Cons Suc.prems IH show ?thesis by simp
        next
          case (Some resolvedPath)
          with Computed MemberExpression Cons Suc.prems
          obtain y where y: "toArray k rv resolvedPath = Some y"
            by (cases "toArray k rv resolvedPath") (auto simp del: toArray.simps)
          from ta [OF y] y Some Computed MemberExpression Cons Suc.prems IH show ?thesis
            by (cases y) (auto simp del: toArray.simps)
        qed
      qed
    next
      case (Identifier x3)
      with Cons Suc.prems IH show ?thesis by simp
    next
      case (Literal x4)
      with Cons Suc.prems IH show ?thesis by simp
    next
      case ThisExpression
      with Cons Suc.prems IH show ?thesis by simp
    next
      case (ObjectExpression props)
      let ?f = "\<lambda>k (key, val). case toString k rv key of None \<Rightarrow> None
                   | Some (Inl e) \<Rightarrow> Some (Inl e)
                   | Some (Inr ks) \<Rightarrow> (case toString k rv val of None \<Rightarrow> None
                        | Some (Inl e) \<Rightarrow> Some (Inl e)
                        | Some (Inr vs) \<Rightarrow> Some (Inr (ks @ '': '' @ vs)))"
      from Cons ObjectExpression Suc.prems obtain strs where
        m: "map_returning (?f k) props = Some strs"
        by (cases "map_returning (?f k) props") (auto simp del: toString.simps)
      have m': "map_returning (?f (Suc k)) props = Some strs"
        using m
      proof (rule map_returning_cong_Some)
        fix x y assume a: "?f k x = Some y"
        obtain key val where x: "x = (key, val)" by (cases x)
        from a show "?f (Suc k) x = Some y"
          unfolding x
          by (auto simp del: toString.simps split: option.splits sum.splits dest!: ts)
      qed
      show ?thesis
      proof (cases strs)
        case (Inl e)
        with m Cons ObjectExpression Suc.prems have "out = Inl e"
          by (simp del: toString.simps)
        with m' Inl Cons ObjectExpression show ?thesis
          by (simp del: toString.simps)
      next
        case (Inr properties)
        with m Cons ObjectExpression Suc.prems
        have "drain k rv rest (res @ [''{'' @ join '', '' properties @ ''}'']) = Some out"
          by (simp del: toString.simps)
        from IH [OF this] m' Inr Cons ObjectExpression show ?thesis
          by (simp del: toString.simps)
      qed
    next
      case (ArrayExpression elems)
      let ?f = "\<lambda>k element. case element of None \<Rightarrow> Some (Inl TypeError)
                   | Some elementPath \<Rightarrow> toString k rv elementPath"
      from Cons ArrayExpression Suc.prems obtain strs where
        m: "map_returning (?f k) elems = Some strs"
        by (cases "map_returning (?f k) elems") (auto simp del: toString.simps)
      have m': "map_returning (?f (Suc k)) elems = Some strs"
        using m
      proof (rule map_returning_cong_Some)
        fix x y assume "?f k x = Some y"
        then show "?f (Suc k) x = Some y"
          by (cases x) (auto simp del: toString.simps dest: ts)
      qed
      show ?thesis
      proof (cases strs)
        case (Inl e)
        with m Cons ArrayExpression Suc.prems have "out = Inl e"
          by (simp del: toString.simps)
        with m' Inl Cons ArrayExpression show ?thesis
          by (simp del: toString.simps)
      next
        case (Inr ss)
        with m Cons ArrayExpression Suc.prems
        have "drain k rv rest (res @ [''['' @ join '', '' ss @ '']'']) = Some out"
          by (simp del: toString.simps)
        from IH [OF this] m' Inr Cons ArrayExpression show ?thesis
          by (simp del: toString.simps)
      qed
    next
      case (OtherNode kind)
      with Cons Suc.prems IH show ?thesis by simp
    qed
  qed
qed

lemma drain_mono:
  "drain k rv parts res = Some out \<Longrightarrow> k \<le> k' \<Longrightarrow> drain k' rv parts res = Some out"
proof -
  assume d: "drain k rv parts res = Some out" and "k \<le> k'"
  then obtain j where "k' = k + j"
    using le_Suc_ex by blast
  moreover have "drain (k + j) rv parts res = Some out"
    by (induction j) (auto intro: d drain_Suc)
  ultimately show ?thesis by simp
qed

lemma toArray_mono:
  "toArray k rv n = Some out \<Longrightarrow> k \<le> k' \<Longrightarrow> toArray k' rv n = Some out"
  by (auto split: option.splits sum.splits dest: drain_mono)

lemma toString_mono:
  "toString k rv n = Some out \<Longrightarrow> k \<le> k' \<Longrightarrow> toString k' rv n = Some out"
  using toArray_mono [of k rv n _ k']
  by (auto simp del: toArray.simps split: option.splits sum.splits)

text \<open>The accumulator is only ever extended at its end.\<close>

lemma drain_accumulator:
  "drain k rv parts (res0 @ res) = map_option (map_sum id ((@) res0)) (drain k rv parts res)"
proof (induction k arbitrary: parts res)
  case 0
  then show ?case by simp
next
  case (Suc k)
  note IH = Suc.IH [of _ "res @ _", simplified]
  show ?case
  proof (cases parts)
    case Nil
    then show ?thesis by simp
  next
    case (Cons path rest)
    show ?thesis
    proof (cases path)
      case (MemberExpression ob pr)
      with Cons IH show ?thesis
        by (cases pr) (auto split: option.splits sum.splits)
    qed (use Cons IH Suc.IH in \<open>auto split: option.splits sum.splits\<close>)
  qed
qed

lemma drain_from_empty:
  "drain k rv parts res = map_option (map_sum id ((@) res)) (drain k rv parts [])"
  using drain_accumulator [of k rv parts res "[]"] by simp

lemma chain_snoc:
  "chain root (names @ [name]) = MemberExpression (chain root names) (Static name)"
  by (simp add: chain_def)

lemma drain_chain:
  "length names + 2 \<le> k \<Longrightarrow>
   drain k rv [chain root names] res = Some (Inr (res @ rev names @ [root]))"
proof (induction names arbitrary: k res rule: rev_induct)
  case Nil
  then obtain j where "k = Suc (Suc j)"
    by (metis add_2_eq_Suc le_Suc_ex list.size(3) add_0)
  then show ?case by (simp add: chain_def)
next
  case (snoc name names)
  then obtain j where k: "k = Suc j" and j: "length names + 2 \<le> j"
    by (cases k) auto
  show ?case
    unfolding k chain_snoc using snoc.IH [OF j] by simp
qed

text \<open>When every call of the callback has an outcome, the map has one.\<close>

lemma map_returning_total:
  "(\<And>x. x \<in> set xs \<Longrightarrow> \<exists>y. f x = Some y) \<Longrightarrow> \<exists>out. map_returning f xs = Some out"
proof (induction xs)
  case Nil
  then show ?case by simp
next
  case (Cons x xs)
  then obtain y rest where "f x = Some y" "map_returning f xs = Some rest"
    by (metis list.set_intros(1,2))
  then show ?case
    by (cases y; cases rest) simp_all
qed

lemma map_returning_uniform:
  fixes f :: "nat \<Rightarrow> 'a \<Rightarrow> (js_error + 'b) option"
  assumes "\<And>x. x \<in> set xs \<Longrightarrow> \<exists>k y. f k x = Some y"
    and f_mono: "\<And>k k' x y. f k x = Some y \<Longrightarrow> k \<le> k' \<Longrightarrow> f k' x = Some y"
  shows "\<exists>k out. map_returning (f k) xs = Some out"
  using assms(1)
proof (induction xs)
  case Nil
  then show ?case by simp
next
  case (Cons x xs)
  then obtain k1 rest where t: "map_returning (f k1) xs = Some rest" by auto
  from Cons.prems [of x] obtain k2 y where h: "f k2 x = Some y" by auto
  let ?k = "max k1 k2"
  have "map_returning (f ?k) xs = Some rest"
    using t
  proof (rule map_returning_cong_Some)
    fix x y assume "x \<in> set xs" "f k1 x = Some y"
    then show "f ?k x = Some y"
      using f_mono [of k1 x y ?k] by simp
  qed
  moreover have "f ?k x = Some y"
    using h by (rule f_mono) simp
  ultimately have "\<exists>out. map_returning (f ?k) (x # xs) = Some out"
    by (cases y; cases rest) simp_all
  then show ?case by blast
qed

text \<open>A map raises only where its callback raises, and returns the values of the callback.\<close>

lemma map_returning_Inl:
  "map_returning f xs = Some (Inl e) \<Longrightarrow> \<exists>x \<in> set xs. f x = Some (Inl e)"
  by (induction xs) (auto split: option.splits sum.splits)

lemma successors_ArrayExpression:
  "m \<in> set (successors rv (ArrayExpression elems)) \<longleftrightarrow> Some m \<in> set elems"
  by (auto split: option.splits)

lemma successors_ObjectExpression:
  "(key, val) \<in> set props \<Longrightarrow>
   key \<in> set (successors rv (ObjectExpression props)) \<and>
   val \<in> set (successors rv (ObjectExpression props))"
  by force

text \<open>With a descending resolver, fuel above the sizes of the queued nodes is enough.\<close>

lemma drain_returns:
  assumes "descending rv"
  shows "(\<Sum>p\<leftarrow>parts. Suc (size p)) < k \<Longrightarrow> \<exists>out. drain k rv parts res = Some out"
proof (induction k arbitrary: parts res)
  case 0
  then show ?case by simp
next
  case (Suc k)
  have ta: "\<exists>out. toArray k rv n = Some out" if "Suc (size n) < k" for n
  proof -
    from Suc.IH [of "[n]" "[]"] that obtain out where "drain k rv [n] [] = Some out" by auto
    then show ?thesis by (cases out) simp_all
  qed
  have ts: "\<exists>out. toString k rv n = Some out" if "Suc (size n) < k" for n
  proof -
    from ta [OF that] obtain out where "toArray k rv n = Some out" ..
    then show ?thesis by (cases out) (simp_all del: toArray.simps)
  qed
  have step: "\<exists>out. (case x of None \<Rightarrow> None | Some (Inl e) \<Rightarrow> Some (Inl e)
                       | Some (Inr v) \<Rightarrow> drain k rv ps (g v)) = Some out"
    if "\<exists>y. x = Some y" "(\<Sum>p\<leftarrow>ps. Suc (size p)) < k"
    for x :: "(js_error + 'c) option" and ps and g :: "'c \<Rightarrow> string list"
  proof -
    from that(1) obtain y where y: "x = Some y" ..
    show ?thesis
    proof (cases y)
      case (Inl e)
      with y show ?thesis by simp
    next
      case (Inr v)
      with y Suc.IH [OF that(2), of "g v"] show ?thesis by simp
    qed
  qed
  show ?case
  proof (cases parts)
    case Nil
    then show ?thesis by simp
  next
    case (Cons path rest)
    with Suc.prems have b: "Suc (size path) + (\<Sum>p\<leftarrow>rest. Suc (size p)) \<le> k"
      by simp
    show ?thesis
    proof (cases path)
      case (CallExpression callee args)
      with b have "(\<Sum>p\<leftarrow>rest @ [callee]. Suc (size p)) < k" by simp
      from Suc.IH [OF this] Cons CallExpression show ?thesis by simp
    next
      case (MemberExpression ob pr)
      with b have s: "(\<Sum>p\<leftarrow>rest @ [ob]. Suc (size p)) < k" by simp
      show ?thesis
      proof (cases pr)
        case (Static name)
        with Suc.IH [OF s] Cons MemberExpression show ?thesis by simp
      next
        case (Computed key)
        show ?thesis
        proof (cases "rv key")
          case None
          with Suc.IH [OF s] Cons MemberExpression Computed show ?thesis by simp
        next
          case (Some resolvedPath)
          with assms have "size resolvedPath \<le> size key"
            by (auto simp: descending_def)
          with b MemberExpression Computed have "Suc (size resolvedPath) < k" by simp
          from step [OF ta [OF this] s, of "\<lambda>segs. res @ segs"]
            Some Cons MemberExpression Computed show ?thesis
            by (simp del: toArray.simps)
        qed
      qed
    next
      case (Identifier name)
      with b have "(\<Sum>p\<leftarrow>rest. Suc (size p)) < k" by simp
      from Suc.IH [OF this] Cons Identifier show ?thesis by simp
    next
      case (Literal raw)
      with b have "(\<Sum>p\<leftarrow>rest. Suc (size p)) < k" by simp
      from Suc.IH [OF this] Cons Literal show ?thesis by simp
    next
      case ThisExpression
      with b have "(\<Sum>p\<leftarrow>rest. Suc (size p)) < k" by simp
      from Suc.IH [OF this] Cons ThisExpression show ?thesis by simp
    next
      case (ObjectExpression props)
      with b have r: "(\<Sum>p\<leftarrow>rest. Suc (size p)) < k" by simp
      let ?f = "\<lambda>(key, val). case toString k rv key of None \<Rightarrow> None
                   | Some (Inl e) \<Rightarrow> Some (Inl e)
                   | Some (Inr ks) \<Rightarrow> (case toString k rv val of None \<Rightarrow> None
                        | Some (Inl e) \<Rightarrow> Some (Inl e)
                        | Some (Inr vs) \<Rightarrow> Some (Inr (ks @ '': '' @ vs)))"
      have "\<exists>y. ?f x = Some y" if "x \<in> set props" for x
      proof -
        obtain key val where x: "x = (key, val)" by (cases x)
        from that have "size_prod size size x \<le> size_list (size_prod size size) props"
          by (rule size_list_estimation') simp
        with b ObjectExpression have "Suc (size key) < k" "Suc (size val) < k"
          by (simp_all add: x)
        from ts [OF this(1)] ts [OF this(2)] obtain a c where
          "toString k rv key = Some a" "toString k rv val = Some c" by blast
        then show ?thesis
          unfolding x by (cases a; cases c) (simp_all del: toString.simps)
      qed
      then have "\<exists>out. map_returning ?f props = Some out"
        by (rule map_returning_total)
      from step [OF this r, of "\<lambda>properties. res @ [''{'' @ join '', '' properties @ ''}'']"]
        Cons ObjectExpression show ?thesis
        by (simp del: toString.simps)
    next
      case (ArrayExpression elems)
      with b have r: "(\<Sum>p\<leftarrow>rest. Suc (size p)) < k" by simp
      let ?f = "\<lambda>element. case element of None \<Rightarrow> Some (Inl TypeError)
                   | Some elementPath \<Rightarrow> toString k rv elementPath"
      have "\<exists>y. ?f x = Some y" if "x \<in> set elems" for x
      proof (cases x)
        case None
        then show ?thesis by simp
      next
        case (Some elementPath)
        from that have "size_option size x \<le> size_list (size_option size) elems"
          by (rule size_list_estimation') simp
        with b ArrayExpression Some have "Suc (size elementPath) < k" by simp
        from ts [OF this] Some show ?thesis by (simp del: toString.simps)
      qed
      then have "\<exists>out. map_returning ?f elems = Some out"
        by (rule map_returning_total)
      from step [OF this r, of "\<lambda>strs. res @ [''['' @ join '', '' strs @ '']'']"]
        Cons ArrayExpression show ?thesis
        by (simp del: toString.simps)
    next
      case (OtherNode kind)
      with b have "(\<Sum>p\<leftarrow>rest. Suc (size p)) < k" by simp
      from Suc.IH [OF this] Cons OtherNode show ?thesis by simp
    qed
  qed
qed

text \<open>
  A node from which what \<^verbatim>\<open>toArray\<close> goes on to cannot be followed for ever has an outcome.
\<close>

lemma drain_returns_acc:
  assumes "n \<in> Wellfounded.acc (calls rv)"
  shows "\<exists>k out. drain k rv [n] res = Some out"
  using assms
proof (induction n arbitrary: res rule: acc_induct_rule)
  case (1 n)
  have IH: "\<exists>k out. drain k rv [m] res' = Some out" if "m \<in> set (successors rv n)" for m res'
    using "1.IH" [of m res'] that by (simp add: calls_def)
  have IHs: "\<exists>k out. toString k rv m = Some out" if "m \<in> set (successors rv n)" for m
  proof -
    from IH [OF that, of "[]"] obtain k out where "drain k rv [m] [] = Some out" by blast
    then have "\<exists>out. toString k rv m = Some out" by (cases out) simp_all
    then show ?thesis ..
  qed
  have finish: "\<exists>k out. (case x k of None \<Rightarrow> None | Some (Inl e) \<Rightarrow> Some (Inl e)
                       | Some (Inr v) \<Rightarrow> drain k rv [] (g v)) = Some out"
    if "\<exists>k y. x k = Some y" "\<And>k k' y. x k = Some y \<Longrightarrow> k \<le> k' \<Longrightarrow> x k' = Some y"
    for x :: "nat \<Rightarrow> (js_error + 'c) option" and g :: "'c \<Rightarrow> string list"
  proof -
    from that(1) obtain k y where xk: "x k = Some y" by blast
    have "x (Suc k) = Some y"
      by (rule that(2) [OF xk]) simp
    then have "\<exists>out. (case x (Suc k) of None \<Rightarrow> None | Some (Inl e) \<Rightarrow> Some (Inl e)
                       | Some (Inr v) \<Rightarrow> drain (Suc k) rv [] (g v)) = Some out"
      by (cases y) simp_all
    then show ?thesis ..
  qed
  show ?case
  proof (cases n)
    case (CallExpression callee args)
    from IH [of callee res] CallExpression obtain k out where "drain k rv [callee] res = Some out"
      by auto
    then have "drain (Suc k) rv [n] res = Some out"
      by (simp add: CallExpression)
    then show ?thesis by blast
  next
    case (MemberExpression ob pr)
    show ?thesis
    proof (cases pr)
      case (Static name)
      from IH [of ob "res @ [name]"] MemberExpression Static
      obtain k out where "drain k rv [ob] (res @ [name]) = Some out" by auto
      then have "drain (Suc k) rv [n] res = Some out"
        by (simp add: MemberExpression Static)
      then show ?thesis by blast
    next
      case (Computed key)
      show ?thesis
      proof (cases "rv key")
        case None
        from IH [of ob "res @ [''<computed>'']"] MemberExpression Computed None
        obtain k out where "drain k rv [ob] (res @ [''<computed>'']) = Some out" by auto
        then have "drain (Suc k) rv [n] res = Some out"
          by (simp add: MemberExpression Computed None)
        then show ?thesis by blast
      next
        case (Some resolvedPath)
        from IH [of resolvedPath "[]"] MemberExpression Computed Some
        obtain k1 o1 where "drain k1 rv [resolvedPath] [] = Some o1" by auto
        then obtain y where a: "toArray k1 rv resolvedPath = Some y"
          by (cases o1) simp_all
        show ?thesis
        proof (cases y)
          case (Inl e)
          with a have "drain (Suc k1) rv [n] res = Some (Inl e)"
            by (simp add: MemberExpression Computed Some del: toArray.simps)
          then show ?thesis by blast
        next
          case (Inr segs)
          from IH [of ob "res @ segs"] MemberExpression Computed Some
          obtain k2 o2 where b: "drain k2 rv [ob] (res @ segs) = Some o2" by auto
          let ?k = "max k1 k2"
          from a Inr have "toArray ?k rv resolvedPath = Some (Inr segs)"
            using toArray_mono [of k1 rv resolvedPath "Inr segs" ?k] by simp
          moreover from b have "drain ?k rv [ob] (res @ segs) = Some o2"
            by (rule drain_mono) simp
          ultimately have "drain (Suc ?k) rv [n] res = Some o2"
            by (simp add: MemberExpression Computed Some del: toArray.simps)
          then show ?thesis by blast
        qed
      qed
    qed
  next
    case (Identifier name)
    then have "drain (Suc (Suc 0)) rv [n] res = Some (Inr (res @ [name]))" by simp
    then show ?thesis by blast
  next
    case (Literal raw)
    then have "drain (Suc (Suc 0)) rv [n] res = Some (Inr (res @ [raw]))" by simp
    then show ?thesis by blast
  next
    case ThisExpression
    then have "drain (Suc (Suc 0)) rv [n] res = Some (Inr (res @ [''this'']))" by simp
    then show ?thesis by blast
  next
    case (ObjectExpression props)
    let ?f = "\<lambda>k (key, val). case toString k rv key of None \<Rightarrow> None
                   | Some (Inl e) \<Rightarrow> Some (Inl e)
                   | Some (Inr ks) \<Rightarrow> (case toString k rv val of None \<Rightarrow> None
                        | Some (Inl e) \<Rightarrow> Some (Inl e)
                        | Some (Inr vs) \<Rightarrow> Some (Inr (ks @ '': '' @ vs)))"
    have fm: "?f k' x = Some y" if "?f k x = Some y" "k \<le> k'" for k k' x y
    proof -
      obtain key val where x: "x = (key, val)" by (cases x)
      from that(1) obtain a where a: "toString k rv key = Some a"
        unfolding x by (cases "toString k rv key") (auto simp del: toString.simps)
      then have a': "toString k' rv key = Some a"
        using that(2) by (rule toString_mono)
      show ?thesis
      proof (cases a)
        case (Inl e)
        with a that(1) have "y = Inl e"
          unfolding x by (simp del: toString.simps)
        with a' Inl show ?thesis
          unfolding x by (simp del: toString.simps)
      next
        case (Inr ks)
        with a that(1) obtain c where c: "toString k rv val = Some c"
          unfolding x by (cases "toString k rv val") (auto simp del: toString.simps)
        then have "toString k' rv val = Some c"
          using that(2) by (rule toString_mono)
        moreover from a c Inr that(1) have "?f k (key, val) = Some y"
          unfolding x by simp
        ultimately show ?thesis
          using a a' c Inr unfolding x by (cases c) (auto simp del: toString.simps)
      qed
    qed
    have "\<exists>k y. ?f k x = Some y" if "x \<in> set props" for x
    proof -
      obtain key val where x: "x = (key, val)" by (cases x)
      with that ObjectExpression have "key \<in> set (successors rv n)" "val \<in> set (successors rv n)"
        using successors_ObjectExpression [of key val props rv] by simp_all
      from IHs [OF this(1)] IHs [OF this(2)]
      obtain k1 a k2 c where "toString k1 rv key = Some a" "toString k2 rv val = Some c"
        by blast
      then have "toString (max k1 k2) rv key = Some a" "toString (max k1 k2) rv val = Some c"
        using toString_mono [of k1 rv key a "max k1 k2"] toString_mono [of k2 rv val c "max k1 k2"]
        by (simp_all del: toString.simps)
      then have "\<exists>y. ?f (max k1 k2) (key, val) = Some y"
        by (cases a; cases c) (simp_all del: toString.simps)
      then show ?thesis
        unfolding x by blast
    qed
    then have "\<exists>k out. map_returning (?f k) props = Some out"
      using fm by (rule map_returning_uniform)
    moreover have "map_returning (?f k') props = Some y"
      if "map_returning (?f k) props = Some y" "k \<le> k'" for k k' y
      using that(1)
    proof (rule map_returning_cong_Some)
      fix x z assume "?f k x = Some z"
      then show "?f k' x = Some z" using that(2) by (rule fm)
    qed
    ultimately have "\<exists>k out. (case map_returning (?f k) props of None \<Rightarrow> None
        | Some (Inl e) \<Rightarrow> Some (Inl e)
        | Some (Inr v) \<Rightarrow> drain k rv [] (res @ [''{'' @ join '', '' v @ ''}''])) = Some out"
      by (rule finish)
    then obtain k out where "drain (Suc k) rv [n] res = Some out"
      unfolding ObjectExpression by (auto simp del: toString.simps)
    then show ?thesis by blast
  next
    case (ArrayExpression elems)
    let ?f = "\<lambda>k element. case element of None \<Rightarrow> Some (Inl TypeError)
                 | Some elementPath \<Rightarrow> toString k rv elementPath"
    have fm: "?f k' x = Some y" if "?f k x = Some y" "k \<le> k'" for k k' x y
    proof (cases x)
      case None
      with that show ?thesis by simp
    next
      case (Some elementPath)
      with that toString_mono [of k rv elementPath y k'] show ?thesis
        by (simp del: toString.simps)
    qed
    have "\<exists>k y. ?f k x = Some y" if "x \<in> set elems" for x
    proof (cases x)
      case None
      then show ?thesis by simp
    next
      case (Some elementPath)
      with that ArrayExpression have "elementPath \<in> set (successors rv n)"
        by (simp only: successors_ArrayExpression)
      from IHs [OF this] Some show ?thesis by (simp del: toString.simps)
    qed
    then have "\<exists>k out. map_returning (?f k) elems = Some out"
      using fm by (rule map_returning_uniform)
    moreover have "map_returning (?f k') elems = Some y"
      if "map_returning (?f k) elems = Some y" "k \<le> k'" for k k' y
      using that(1)
    proof (rule map_returning_cong_Some)
      fix x z assume "?f k x = Some z"
      then show "?f k' x = Some z" using that(2) by (rule fm)
    qed
    ultimately have "\<exists>k out. (case map_returning (?f k) elems of None \<Rightarrow> None
        | Some (Inl e) \<Rightarrow> Some (Inl e)
        | Some (Inr v) \<Rightarrow> drain k rv [] (res @ [''['' @ join '', '' v @ '']''])) = Some out"
      by (rule finish)
    then obtain k out where "drain (Suc k) rv [n] res = Some out"
      unfolding ArrayExpression by (auto simp del: toString.simps)
    then show ?thesis by blast
  next
    case (OtherNode kind)
    then have "drain (Suc (Suc 0)) rv [n] res = Some (Inr res)" by simp
    then show ?thesis by blast
  qed
qed

lemma drain_returns_wf:
  assumes "wf (calls rv)"
  shows "\<exists>k out. drain k rv [n] res = Some out"
proof -
  from assms have "n \<in> Wellfounded.acc (calls rv)"
    by (simp add: wf_iff_acc)
  then show ?thesis by (rule drain_returns_acc)
qed

text \<open>The loop raises only when it comes to an array literal with an elided element.\<close>

lemma reaches_successor:
  "(m, c) \<in> (calls rv)\<^sup>* \<Longrightarrow> c \<in> set (successors rv p) \<Longrightarrow> (m, p) \<in> (calls rv)\<^sup>*"
  by (erule rtrancl_into_rtrancl) (simp add: calls_def)

lemma toString_raises:
  "toString k rv x = Some (Inl e) \<Longrightarrow> drain k rv [x] [] = Some (Inl e)"
  by (auto split: option.splits sum.splits)

lemma drain_raises:
  "drain k rv parts res = Some (Inl e) \<Longrightarrow>
   \<exists>p \<in> set parts. \<exists>m. (m, p) \<in> (calls rv)\<^sup>* \<and> elided m"
proof (induction k arbitrary: parts res)
  case 0
  then show ?case by simp
next
  case (Suc k)
  show ?case
  proof (cases parts)
    case Nil
    with Suc.prems show ?thesis by simp
  next
    case (Cons path rest)
    have child: "\<exists>m. (m, path) \<in> (calls rv)\<^sup>* \<and> elided m"
      if "drain k rv [c] r0 = Some (Inl e)" "c \<in> set (successors rv path)" for c r0
      using Suc.IH [OF that(1)] that(2) by (auto intro: reaches_successor)
    have tail: ?thesis if "drain k rv rest r0 = Some (Inl e)" for r0
      using Suc.IH [OF that] Cons by auto
    have requeued: ?thesis
      if "drain k rv (rest @ [c]) r0 = Some (Inl e)" "c \<in> set (successors rv path)" for c r0
    proof -
      from Suc.IH [OF that(1)] obtain p m where
        p: "p \<in> set rest \<or> p = c" and m: "(m, p) \<in> (calls rv)\<^sup>*" "elided m"
        by auto
      from p show ?thesis
      proof
        assume "p \<in> set rest"
        with m Cons show ?thesis by auto
      next
        assume "p = c"
        with m that(2) have "(m, path) \<in> (calls rv)\<^sup>*"
          by (auto intro: reaches_successor)
        with m Cons show ?thesis by auto
      qed
    qed
    show ?thesis
    proof (cases path)
      case (CallExpression callee args)
      with Cons Suc.prems requeued [of callee res] show ?thesis by simp
    next
      case (MemberExpression ob pr)
      show ?thesis
      proof (cases pr)
        case (Static name)
        with MemberExpression Cons Suc.prems requeued [of ob "res @ [name]"] show ?thesis
          by simp
      next
        case (Computed key)
        show ?thesis
        proof (cases "rv key")
          case None
          with Computed MemberExpression Cons Suc.prems
            requeued [of ob "res @ [''<computed>'']"] show ?thesis
            by simp
        next
          case (Some resolvedPath)
          show ?thesis
          proof (cases "drain k rv [resolvedPath] []")
            case None
            with Some Computed MemberExpression Cons Suc.prems show ?thesis by simp
          next
            case s: (Some y)
            show ?thesis
            proof (cases y)
              case (Inl e')
              with s Some Computed MemberExpression Cons Suc.prems have "e' = e" by simp
              with s Inl Some Computed MemberExpression child [of resolvedPath "[]"]
              have "\<exists>m. (m, path) \<in> (calls rv)\<^sup>* \<and> elided m" by simp
              with Cons show ?thesis by auto
            next
              case (Inr r)
              with s Some Computed MemberExpression Cons Suc.prems
                requeued [of ob "res @ rev r"] show ?thesis
                by simp
            qed
          qed
        qed
      qed
    next
      case (Identifier name)
      with Cons Suc.prems tail show ?thesis by simp
    next
      case (Literal raw)
      with Cons Suc.prems tail show ?thesis by simp
    next
      case ThisExpression
      with Cons Suc.prems tail show ?thesis by simp
    next
      case (ObjectExpression props)
      let ?f = "\<lambda>(key, val). case toString k rv key of None \<Rightarrow> None
                   | Some (Inl e) \<Rightarrow> Some (Inl e)
                   | Some (Inr ks) \<Rightarrow> (case toString k rv val of None \<Rightarrow> None
                        | Some (Inl e) \<Rightarrow> Some (Inl e)
                        | Some (Inr vs) \<Rightarrow> Some (Inr (ks @ '': '' @ vs)))"
      show ?thesis
      proof (cases "map_returning ?f props")
        case None
        with ObjectExpression Cons Suc.prems show ?thesis by (simp del: toString.simps)
      next
        case (Some y)
        show ?thesis
        proof (cases y)
          case (Inl e')
          with Some ObjectExpression Cons Suc.prems have "e' = e"
            by (simp del: toString.simps)
          with Some Inl obtain key val where kv: "(key, val) \<in> set props"
            and f: "?f (key, val) = Some (Inl e)"
            by (auto dest!: map_returning_Inl simp del: toString.simps)
          from f have "toString k rv key = Some (Inl e) \<or> toString k rv val = Some (Inl e)"
            by (auto simp del: toString.simps split: option.splits sum.splits)
          then have "drain k rv [key] [] = Some (Inl e) \<or> drain k rv [val] [] = Some (Inl e)"
            using toString_raises [of k rv key e] toString_raises [of k rv val e] by blast
          with successors_ObjectExpression [OF kv, of rv] ObjectExpression
          have "\<exists>m. (m, path) \<in> (calls rv)\<^sup>* \<and> elided m"
            using child [of key "[]"] child [of val "[]"] by auto
          with Cons show ?thesis by auto
        next
          case (Inr properties)
          with Some ObjectExpression Cons Suc.prems tail show ?thesis
            by (simp del: toString.simps)
        qed
      qed
    next
      case (ArrayExpression elems)
      let ?f = "\<lambda>element. case element of None \<Rightarrow> Some (Inl TypeError)
                   | Some elementPath \<Rightarrow> toString k rv elementPath"
      show ?thesis
      proof (cases "map_returning ?f elems")
        case None
        with ArrayExpression Cons Suc.prems show ?thesis by (simp del: toString.simps)
      next
        case (Some y)
        show ?thesis
        proof (cases y)
          case (Inl e')
          with Some ArrayExpression Cons Suc.prems have "e' = e"
            by (simp del: toString.simps)
          with Some Inl obtain x where x: "x \<in> set elems" and f: "?f x = Some (Inl e)"
            by (auto dest!: map_returning_Inl simp del: toString.simps)
          have "\<exists>m. (m, path) \<in> (calls rv)\<^sup>* \<and> elided m"
          proof (cases x)
            case None
            with x ArrayExpression have "elided path"
              by (auto simp: elided_def)
            then show ?thesis by blast
          next
            case s: (Some elementPath)
            with f have "drain k rv [elementPath] [] = Some (Inl e)"
              by (auto dest: toString_raises simp del: toString.simps)
            moreover from s x ArrayExpression have "elementPath \<in> set (successors rv path)"
              by (simp only: successors_ArrayExpression)
            ultimately show ?thesis by (rule child)
          qed
          with Cons show ?thesis by auto
        next
          case (Inr strs)
          with Some ArrayExpression Cons Suc.prems tail show ?thesis
            by (simp del: toString.simps)
        qed
      qed
    next
      case (OtherNode kind)
      with Cons Suc.prems tail show ?thesis by simp
    qed
  qed
qed

text \<open>
  Claim C3.  For the chain \<^verbatim>\<open>root.name1. ... .nameN\<close> of static property accesses, under
  any resolver and with fuel for the \<open>N + 1\<close> iterations of the loop and its exit, the loop
  accumulates the segments from the leaf to the root, \<^verbatim>\<open>toArray\<close> returns that list
  reversed, which is the segments in root-to-leaf order, and \<^verbatim>\<open>toString\<close> returns them
  joined with dots.
\<close>

theorem static_chain_flattens_root_to_leaf:
  assumes "length names + 2 \<le> k"
  shows "drain k rv [chain root names] [] = Some (Inr (rev (root # names)))
       \<and> toArray k rv (chain root names) = Some (Inr (root # names))
       \<and> toString k rv (chain root names) = Some (Inr (join ''.'' (root # names)))"
  using drain_chain [OF assms, of rv root "[]"] by simp

theorem static_chain_flattens_root_to_leaf_witness:
  "chain ''a'' [''b'', ''c'']
     = MemberExpression (MemberExpression (Identifier ''a'') (Static ''b'')) (Static ''c'')
   \<and> drain 4 (\<lambda>key. None) [chain ''a'' [''b'', ''c'']] [] = Some (Inr [''c'', ''b'', ''a''])
   \<and> toArray 4 (\<lambda>key. None) (chain ''a'' [''b'', ''c'']) = Some (Inr [''a'', ''b'', ''c''])
   \<and> toString 4 (\<lambda>key. None) (chain ''a'' [''b'', ''c'']) = Some (Inr ''a.b.c'')"
proof -
  have "length [''b'', ''c''] + 2 \<le> (4::nat)" by simp
  from static_chain_flattens_root_to_leaf [OF this, of "\<lambda>key. None" "''a''"]
  show ?thesis by (simp add: chain_def)
qed

text \<open>
  Claim C4, as the code has it.  For the computed access on the root identifier
  \<^verbatim>\<open>foo\<close>: when the key resolves to a literal, \<^verbatim>\<open>toArray\<close> returns \<^verbatim>\<open>foo\<close> followed by
  the \<^verbatim>\<open>raw\<close> text of that literal; when the key does not resolve, it returns \<^verbatim>\<open>foo\<close>
  followed by the segment \<^verbatim>\<open><computed>\<close>.
\<close>

theorem computed_key_literal_raw_or_sentinel:
  assumes "3 \<le> k"
  shows "(rv key = Some (Literal raw) \<longrightarrow>
            toArray k rv (MemberExpression (Identifier ''foo'') (Computed key))
              = Some (Inr [''foo'', raw]))
       \<and> (rv key = None \<longrightarrow>
            toArray k rv (MemberExpression (Identifier ''foo'') (Computed key))
              = Some (Inr [''foo'', ''<computed>'']))"
proof -
  from assms obtain j where "k = Suc (Suc (Suc j))"
    by (metis add_Suc le_Suc_ex numeral_3_eq_3 plus_nat.add_0)
  then show ?thesis by simp
qed

theorem computed_key_literal_raw_or_sentinel_witness:
  "toArray 3 (resolving (Identifier ''key'') (string_literal ''bar''))
       (MemberExpression (Identifier ''foo'') (Computed (Identifier ''key'')))
     = Some (Inr [''foo'', [CHR 0x22] @ ''bar'' @ [CHR 0x22]])
   \<and> toArray 3 (\<lambda>key. None) (MemberExpression (Identifier ''foo'') (Computed (Identifier ''key'')))
     = Some (Inr [''foo'', ''<computed>''])"
proof -
  have k: "(3::nat) \<le> 3" by simp
  have r: "resolving (Identifier ''key'') (string_literal ''bar'') (Identifier ''key'')
      = Some (Literal ([CHR 0x22] @ ''bar'' @ [CHR 0x22]))"
    by (simp add: resolving_def string_literal_def)
  from computed_key_literal_raw_or_sentinel [OF k, of
      "resolving (Identifier ''key'') (string_literal ''bar'')" "Identifier ''key''"
      "[CHR 0x22] @ ''bar'' @ [CHR 0x22]"] r
  have a: "toArray 3 (resolving (Identifier ''key'') (string_literal ''bar''))
       (MemberExpression (Identifier ''foo'') (Computed (Identifier ''key'')))
     = Some (Inr [''foo'', [CHR 0x22] @ ''bar'' @ [CHR 0x22]])"
    by simp
  from computed_key_literal_raw_or_sentinel [OF k, of "\<lambda>key. None" "Identifier ''key''"]
  have b: "toArray 3 (\<lambda>key. None) (MemberExpression (Identifier ''foo'') (Computed (Identifier ''key'')))
     = Some (Inr [''foo'', ''<computed>''])"
    by simp
  from a b show ?thesis by simp
qed

text \<open>
  The segment is the raw text and not the value of the literal: for the key resolved to
  the string literal \<^verbatim>\<open>"bar"\<close> the second segment keeps the quotes, so the path is not
  \<^verbatim>\<open>foo\<close>, \<^verbatim>\<open>bar\<close>.
\<close>

theorem computed_key_string_literal_counterexample:
  "resolving (Identifier ''key'') (string_literal ''bar'') (Identifier ''key'')
     = Some (string_literal ''bar'')
   \<and> toArray 3 (resolving (Identifier ''key'') (string_literal ''bar''))
       (MemberExpression (Identifier ''foo'') (Computed (Identifier ''key'')))
     \<noteq> Some (Inr [''foo'', ''bar''])"
  by (simp add: resolving_def string_literal_def numeral_3_eq_3)

text \<open>
  What a resolved key contributes: its own path, reversed.  The nested call returns the
  path of the resolved expression root first, the loop appends it to the accumulator as it
  is, and the final \<^verbatim>\<open>reverse\<close> of \<^verbatim>\<open>toArray\<close> turns the whole accumulator around.
\<close>

lemma computed_key_splice:
  assumes "rv key = Some resolvedPath"
    and "toArray k rv resolvedPath = Some (Inr segs)"
    and "toArray k rv obj = Some (Inr path)"
  shows "toArray (Suc k) rv (MemberExpression obj (Computed key)) = Some (Inr (path @ rev segs))"
proof -
  from assms(3) obtain r where r: "drain k rv [obj] [] = Some (Inr r)" "path = rev r"
    by (auto split: option.splits sum.splits)
  then have "drain k rv [obj] segs = Some (Inr (segs @ r))"
    using drain_from_empty [of k rv "[obj]" segs] by simp
  with assms(1,2) r show ?thesis
    by (simp del: toArray.simps) simp
qed

text \<open>
  Claim C5 on a key that resolves to the expression \<^verbatim>\<open>a.b\<close>: flattened on its own the
  resolved expression gives \<^verbatim>\<open>a\<close>, \<^verbatim>\<open>b\<close>, but inside the path of \<^verbatim>\<open>foo[key]\<close> its segments
  come out leaf first, as \<^verbatim>\<open>foo\<close>, \<^verbatim>\<open>b\<close>, \<^verbatim>\<open>a\<close>.
\<close>

theorem resolved_key_segments_reversed:
  "toArray 3 (resolving (Identifier ''key'') (chain ''a'' [''b''])) (chain ''a'' [''b''])
     = Some (Inr [''a'', ''b''])
   \<and> toArray 4 (resolving (Identifier ''key'') (chain ''a'' [''b'']))
       (MemberExpression (Identifier ''foo'') (Computed (Identifier ''key'')))
     = Some (Inr [''foo'', ''b'', ''a''])"
  by (simp add: resolving_def chain_def numeral_3_eq_3 eval_nat_numeral)

text \<open>
  Every node that flattening goes on to is a strictly smaller subtree of the current
  node, unless it is what the resolver returned for a computed key.
\<close>

lemma successors_smaller_or_resolved:
  assumes "m \<in> set (successors rv n)"
  shows "size m < size n \<or> (\<exists>obj key. n = MemberExpression obj (Computed key) \<and> rv key = Some m)"
proof (cases n)
  case (MemberExpression ob pr)
  with assms show ?thesis
    by (cases pr) (auto split: option.splits)
next
  case (ObjectExpression props)
  with assms obtain key val where kv: "(key, val) \<in> set props" "m = key \<or> m = val"
    by auto
  from kv(1) have "size_prod size size (key, val) \<le> size_list (size_prod size size) props"
    by (rule size_list_estimation') simp
  with kv(2) ObjectExpression show ?thesis by auto
next
  case (ArrayExpression elems)
  with assms have "Some m \<in> set elems"
    by (simp only: successors_ArrayExpression)
  then have "size_option size (Some m) \<le> size_list (size_option size) elems"
    by (rule size_list_estimation') simp
  with ArrayExpression show ?thesis by simp
qed (use assms in auto)

lemma descending_wf:
  assumes "descending rv"
  shows "wf (calls rv)"
proof (rule wf_subset [OF wf_measure [of size]])
  show "calls rv \<subseteq> measure size"
  proof
    fix p assume "p \<in> calls rv"
    then obtain m n where p: "p = (m, n)" and s: "m \<in> set (successors rv n)"
      by (auto simp: calls_def)
    from successors_smaller_or_resolved [OF s] have "size m < size n"
    proof
      assume "\<exists>obj key. n = MemberExpression obj (Computed key) \<and> rv key = Some m"
      then obtain obj key where "n = MemberExpression obj (Computed key)" "rv key = Some m"
        by blast
      moreover from this assms have "size m \<le> size key"
        by (simp add: descending_def)
      ultimately show ?thesis by simp
    qed
    with p show "p \<in> measure size" by simp
  qed
qed

text \<open>Calls on the chain of objects and callees do not change the outcome.\<close>

lemma drain_call_iff:
  "(\<exists>k. drain k rv (CallExpression callee args # parts) res = Some out) \<longleftrightarrow>
   (\<exists>k. drain k rv (parts @ [callee]) res = Some out)"
proof
  assume "\<exists>k. drain k rv (CallExpression callee args # parts) res = Some out"
  then obtain k where k: "drain k rv (CallExpression callee args # parts) res = Some out" ..
  then obtain j where "k = Suc j" by (cases k) auto
  with k show "\<exists>k. drain k rv (parts @ [callee]) res = Some out" by auto
next
  assume "\<exists>k. drain k rv (parts @ [callee]) res = Some out"
  then obtain k where "drain k rv (parts @ [callee]) res = Some out" ..
  then have "drain (Suc k) rv (CallExpression callee args # parts) res = Some out" by simp
  then show "\<exists>k. drain k rv (CallExpression callee args # parts) res = Some out" ..
qed

lemma drain_member_transfer:
  assumes ab: "\<And>res out. \<exists>k. drain k rv [a] res = Some out \<Longrightarrow> \<exists>k. drain k rv [b] res = Some out"
    and d: "drain k rv [MemberExpression a pr] res = Some out"
  shows "\<exists>k. drain k rv [MemberExpression b pr] res = Some out"
proof -
  from d obtain j where k: "k = Suc j" by (cases k) auto
  show ?thesis
  proof (cases pr)
    case (Static name)
    with d k have "drain j rv [a] (res @ [name]) = Some out" by simp
    with ab obtain j' where "drain j' rv [b] (res @ [name]) = Some out" by blast
    then have "drain (Suc j') rv [MemberExpression b pr] res = Some out"
      by (simp add: Static)
    then show ?thesis ..
  next
    case (Computed key)
    show ?thesis
    proof (cases "rv key")
      case None
      with d k Computed have "drain j rv [a] (res @ [''<computed>'']) = Some out" by simp
      with ab obtain j' where "drain j' rv [b] (res @ [''<computed>'']) = Some out" by blast
      then have "drain (Suc j') rv [MemberExpression b pr] res = Some out"
        by (simp add: Computed None)
      then show ?thesis ..
    next
      case (Some resolvedPath)
      with d k Computed obtain y where y: "toArray j rv resolvedPath = Some y"
        by (cases "toArray j rv resolvedPath") (auto simp del: toArray.simps)
      show ?thesis
      proof (cases y)
        case (Inl e)
        with y d k Computed Some have "out = Inl e"
          by (simp del: toArray.simps)
        with y Inl have "drain (Suc j) rv [MemberExpression b pr] res = Some out"
          by (simp add: Computed Some del: toArray.simps)
        then show ?thesis ..
      next
        case (Inr segs)
        with y d k Computed Some have "drain j rv [a] (res @ segs) = Some out"
          by (simp del: toArray.simps)
        with ab obtain j' where j': "drain j' rv [b] (res @ segs) = Some out" by blast
        let ?k = "max j j'"
        from y Inr have "toArray ?k rv resolvedPath = Some (Inr segs)"
          using toArray_mono [of j rv resolvedPath "Inr segs" ?k] by simp
        moreover from j' have "drain ?k rv [b] (res @ segs) = Some out"
          by (rule drain_mono) simp
        ultimately have "drain (Suc ?k) rv [MemberExpression b pr] res = Some out"
          by (simp add: Computed Some del: toArray.simps)
        then show ?thesis ..
      qed
    qed
  qed
qed

lemma drain_without_calls:
  "(\<exists>k. drain k rv [n] res = Some out) \<longleftrightarrow> (\<exists>k. drain k rv [without_calls n] res = Some out)"
proof (induction n arbitrary: res out rule: without_calls.induct)
  case (1 callee args)
  then show ?case
    using drain_call_iff [of rv callee args "[]" res out] by simp
next
  case (2 ob pr)
  show ?case
    unfolding without_calls.simps
    using "2" drain_member_transfer [of rv ob "without_calls ob" _ pr res out]
      drain_member_transfer [of rv "without_calls ob" ob _ pr res out]
    by blast
qed simp_all

lemma toArray_drain_iff:
  "toArray k rv m = Some out \<longleftrightarrow> drain k rv [m] [] = Some (map_sum id rev out)"
proof (cases "drain k rv [m] []")
  case None
  then show ?thesis by simp
next
  case (Some y)
  then show ?thesis
    by (cases y; cases out) auto
qed

lemma toArray_without_calls:
  "(\<exists>k. toArray k rv n = Some out) \<longleftrightarrow> (\<exists>k. toArray k rv (without_calls n) = Some out)"
  unfolding toArray_drain_iff by (rule drain_without_calls)

text \<open>
  Claim C6.  A call at the head of the queue only puts its callee on the queue: the
  accumulator is unchanged and the arguments are not looked at.  So flattening a call is
  flattening its callee, and flattening any node has the same outcome as flattening the
  node with every call on its chain of objects and callees replaced by its callee.  In
  particular \<^verbatim>\<open>foo(...).bar\<close> flattens to \<^verbatim>\<open>foo\<close>, \<^verbatim>\<open>bar\<close> whatever the arguments are.
\<close>

theorem call_contributes_no_segment:
  "drain (Suc k) rv (CallExpression callee args # parts) result
     = drain k rv (parts @ [callee]) result
   \<and> toArray (Suc k) rv (CallExpression callee args) = toArray k rv callee
   \<and> ((\<exists>j. toArray j rv n = Some out) \<longleftrightarrow> (\<exists>j. toArray j rv (without_calls n) = Some out))
   \<and> toArray (k + 4) rv (MemberExpression (CallExpression (Identifier ''foo'') args) (Static ''bar''))
       = Some (Inr [''foo'', ''bar''])"
proof (intro conjI)
  show "(\<exists>j. toArray j rv n = Some out) \<longleftrightarrow> (\<exists>j. toArray j rv (without_calls n) = Some out)"
    by (rule toArray_without_calls)
  have e: "k + 4 = Suc (Suc (Suc (Suc k)))" by simp
  show "toArray (k + 4) rv
      (MemberExpression (CallExpression (Identifier ''foo'') args) (Static ''bar''))
       = Some (Inr [''foo'', ''bar''])"
    unfolding e by simp
qed simp_all

text \<open>
  A resolver may lead back to the node that is being flattened.  Then \<^verbatim>\<open>toArray\<close> calls
  itself on the same node again and again: no amount of fuel gives it an outcome.
\<close>

lemma drain_self_keyed:
  "drain k (resolving (Identifier ''x'') self_keyed) (self_keyed # parts) res = None"
proof (induction k arbitrary: parts res)
  case 0
  then show ?case by simp
next
  case (Suc k)
  have "toArray k (resolving (Identifier ''x'') self_keyed) self_keyed = None"
    using Suc [of "[]" "[]"] by simp
  then show ?case
    unfolding self_keyed_def [symmetric]
    by (subst self_keyed_def) (simp add: resolving_def del: toArray.simps)
qed

text \<open>
  Flattening \<^verbatim>\<open>o[x]\<close> where the key \<^verbatim>\<open>x\<close> resolves to \<^verbatim>\<open>o[x]\<close> does not terminate, though
  the tree is finite.
\<close>

theorem flatten_cyclic_resolution_counterexample:
  "\<forall>k. toArray k (resolving (Identifier ''x'') self_keyed) self_keyed = None"
  by (simp add: drain_self_keyed)

text \<open>
  Neither \<^verbatim>\<open>toArray\<close> nor \<^verbatim>\<open>toString\<close> returns on the call \<^verbatim>\<open>o[x]()\<close> under that
  resolver: the recursion is unbounded, which a JavaScript engine ends by raising a
  \<^verbatim>\<open>RangeError\<close> for the exhausted call stack.  And with no resolver involved,
  \<^verbatim>\<open>toString\<close> raises a \<^verbatim>\<open>TypeError\<close> on the array literal \<^verbatim>\<open>[1, , 2]\<close>.
\<close>

theorem flatten_raises_counterexample:
  "(\<forall>k. toArray k (resolving (Identifier ''x'') self_keyed) (CallExpression self_keyed []) = None
      \<and> toString k (resolving (Identifier ''x'') self_keyed) (CallExpression self_keyed []) = None)
   \<and> (\<forall>k. toString (k + 3) (\<lambda>key. None)
          (ArrayExpression [Some (Literal ''1''), None, Some (Literal ''2'')])
        = Some (Inl TypeError))"
proof (intro conjI allI)
  fix k
  show "toArray k (resolving (Identifier ''x'') self_keyed) (CallExpression self_keyed []) = None"
    by (cases k) (simp_all add: drain_self_keyed)
  then show "toString k (resolving (Identifier ''x'') self_keyed) (CallExpression self_keyed []) = None"
    by (simp del: toArray.simps)
  have e: "k + 3 = Suc (Suc (Suc k))" by simp
  show "toString (k + 3) (\<lambda>key. None)
          (ArrayExpression [Some (Literal ''1''), None, Some (Literal ''2'')])
        = Some (Inl TypeError)"
    unfolding e by simp
qed

text \<open>The nodes from which a node is reached are the node and those of its successors.\<close>

lemma reaches_cases:
  "(m, n) \<in> (calls rv)\<^sup>* \<Longrightarrow> m = n \<or> (\<exists>c \<in> set (successors rv n). (m, c) \<in> (calls rv)\<^sup>*)"
  by (erule rtranclE) (auto simp: calls_def)

lemma toArray_returns_acc:
  assumes "n \<in> Wellfounded.acc (calls rv)"
  shows "\<exists>k out. toArray k rv n = Some out"
proof -
  from drain_returns_acc [OF assms, of "[]"] obtain k out where "drain k rv [n] [] = Some out"
    by blast
  then have "\<exists>out. toArray k rv n = Some out"
    by (cases out) simp_all
  then show ?thesis ..
qed

lemma toArray_never_raises:
  assumes "\<forall>m. (m, n) \<in> (calls rv)\<^sup>* \<longrightarrow> \<not> elided m"
  shows "toArray k rv n \<noteq> Some (Inl e)"
proof
  assume "toArray k rv n = Some (Inl e)"
  then have "drain k rv [n] [] = Some (Inl e)"
    by (auto split: option.splits sum.splits)
  from drain_raises [OF this] assms show False by auto
qed

text \<open>
  Claim C9, as the code has it.  Let \<open>n\<close> be a node from which what flattening goes on to
  cannot be followed for ever (\<open>n\<close> is in the accessible part of \<open>calls rv\<close>), and let no
  array literal reached from \<open>n\<close> have an elided element.  Then \<^verbatim>\<open>toArray\<close> and
  \<^verbatim>\<open>toString\<close> return on \<open>n\<close>, the string being the segments joined with dots, and with
  no amount of fuel does either of them raise.  A computed key that does not resolve adds
  the segment \<^verbatim>\<open><computed>\<close> after the path of the object and nothing else happens.  A node
  of a kind that no check accepts is taken off the queue without a segment, and flattened
  on its own it gives the empty path.
\<close>

theorem flatten_never_raises_when_resolution_ends:
  assumes "n \<in> Wellfounded.acc (calls rv)"
    and "\<forall>m. (m, n) \<in> (calls rv)\<^sup>* \<longrightarrow> \<not> elided m"
  shows "(\<exists>k segs. toArray k rv n = Some (Inr segs) \<and> toString k rv n = Some (Inr (join ''.'' segs)))
       \<and> (\<forall>k e. toArray k rv n \<noteq> Some (Inl e) \<and> toString k rv n \<noteq> Some (Inl e))
       \<and> (rv key = None \<longrightarrow>
            toArray (Suc j) rv (MemberExpression obj (Computed key))
              = map_option (map_sum id (\<lambda>segs. segs @ [''<computed>''])) (toArray j rv obj))
       \<and> drain (Suc j) rv (OtherNode kind # parts) result = drain j rv parts result
       \<and> toArray (Suc (Suc j)) rv (OtherNode kind) = Some (Inr [])"
proof (intro conjI impI allI)
  from toArray_returns_acc [OF assms(1)] obtain k out where out: "toArray k rv n = Some out"
    by blast
  with toArray_never_raises [OF assms(2), of k] obtain segs where "out = Inr segs"
    by (cases out) auto
  with out have "toArray k rv n = Some (Inr segs) \<and> toString k rv n = Some (Inr (join ''.'' segs))"
    by (simp del: toArray.simps)
  then show "\<exists>k segs. toArray k rv n = Some (Inr segs) \<and> toString k rv n = Some (Inr (join ''.'' segs))"
    by blast
next
  fix k e
  show "toArray k rv n \<noteq> Some (Inl e)"
    using assms(2) by (rule toArray_never_raises)
  then show "toString k rv n \<noteq> Some (Inl e)"
    by (auto simp del: toArray.simps split: option.splits sum.splits)
next
  assume "rv key = None"
  then show "toArray (Suc j) rv (MemberExpression obj (Computed key))
      = map_option (map_sum id (\<lambda>segs. segs @ [''<computed>''])) (toArray j rv obj)"
    using drain_from_empty [of j rv "[obj]" "[''<computed>'']"]
    by (cases "drain j rv [obj] []") (auto split: sum.splits)
qed simp_all

theorem flatten_never_raises_when_resolution_ends_witness:
  "MemberExpression (OtherNode ''JSXElement'') (Computed (Identifier ''y''))
     \<in> Wellfounded.acc (calls (resolving (Identifier ''x'') self_keyed))
   \<and> \<not> wf (calls (resolving (Identifier ''x'') self_keyed))
   \<and> (\<exists>k segs.
        toArray k (resolving (Identifier ''x'') self_keyed)
          (MemberExpression (OtherNode ''JSXElement'') (Computed (Identifier ''y''))) = Some (Inr segs)
        \<and> toString k (resolving (Identifier ''x'') self_keyed)
          (MemberExpression (OtherNode ''JSXElement'') (Computed (Identifier ''y'')))
            = Some (Inr (join ''.'' segs)))
   \<and> toArray 3 (resolving (Identifier ''x'') self_keyed)
        (MemberExpression (OtherNode ''JSXElement'') (Computed (Identifier ''y'')))
       = Some (Inr [''<computed>''])"
proof -
  let ?rv = "resolving (Identifier ''x'') self_keyed"
  let ?n = "MemberExpression (OtherNode ''JSXElement'') (Computed (Identifier ''y''))"
  have rv: "?rv (Identifier ''y'') = None"
    by (simp add: resolving_def)
  have other: "OtherNode ''JSXElement'' \<in> Wellfounded.acc (calls ?rv)"
    by (rule accI) (simp add: calls_def)
  have a: "?n \<in> Wellfounded.acc (calls ?rv)"
    by (rule accI) (use other rv in \<open>simp add: calls_def\<close>)
  have h: "\<forall>m. (m, ?n) \<in> (calls ?rv)\<^sup>* \<longrightarrow> \<not> elided m"
  proof (intro allI impI)
    fix m assume "(m, ?n) \<in> (calls ?rv)\<^sup>*"
    from reaches_cases [OF this] rv have "m = ?n \<or> (m, OtherNode ''JSXElement'') \<in> (calls ?rv)\<^sup>*"
      by simp
    then have "m = ?n \<or> m = OtherNode ''JSXElement''"
      by (auto dest: reaches_cases)
    then show "\<not> elided m"
      by (auto simp: elided_def)
  qed
  have nwf: "\<not> wf (calls ?rv)"
  proof
    assume "wf (calls ?rv)"
    from drain_returns_wf [OF this, of self_keyed "[]"] show False
      by (simp add: drain_self_keyed)
  qed
  note t = flatten_never_raises_when_resolution_ends [OF a h,
      where key = "Identifier ''y''" and j = "Suc (Suc 0)" and obj = "OtherNode ''JSXElement''"
        and kind = "''JSXElement''" and parts = "[]" and result = "[]"]
  have "toArray 3 ?rv ?n = Some (Inr [''<computed>''])"
    using t rv by (simp add: numeral_3_eq_3)
  with a nwf t show ?thesis by blast
qed

lemma toArray_returns_wf:
  assumes "wf (calls rv)"
  shows "\<exists>k out. toArray k rv n = Some out"
proof -
  from assms have "n \<in> Wellfounded.acc (calls rv)"
    by (simp add: wf_iff_acc)
  then show ?thesis by (rule toArray_returns_acc)
qed

text \<open>
  Claim C10, as the code has it.  \<^verbatim>\<open>toArray\<close> terminates on every node when the relation
  \<open>calls rv\<close> is well-founded, and from some amount of fuel on the outcome no longer
  depends on the fuel; the outcome is a path when no array literal reached from the node
  has an elided element.  That is the case for every descending resolver, for which fuel
  \<open>size n + 2\<close> is enough.  Every node that flattening goes on to is a strictly smaller
  subtree of the current node, with one exception: the expression that the resolver
  returns for the key of a computed access, which is whatever the resolver returns.
\<close>

theorem flatten_terminates_when_resolution_well_founded:
  "(wf (calls rv) \<longrightarrow>
      (\<exists>k out. (\<forall>k'\<ge>k. toArray k' rv n = Some out) \<and>
         ((\<forall>m. (m, n) \<in> (calls rv)\<^sup>* \<longrightarrow> \<not> elided m) \<longrightarrow> (\<exists>segs. out = Inr segs))))
   \<and> (descending rv \<longrightarrow> wf (calls rv) \<and> (\<forall>k\<ge>size n + 2. toArray k rv n \<noteq> None))
   \<and> (m \<in> set (successors rv n) \<longrightarrow>
        size m < size n \<or> (\<exists>obj key. n = MemberExpression obj (Computed key) \<and> rv key = Some m))"
proof (intro conjI impI allI)
  assume "wf (calls rv)"
  from toArray_returns_wf [OF this, of n] obtain k out where out: "toArray k rv n = Some out"
    by blast
  then have "\<forall>k'\<ge>k. toArray k' rv n = Some out"
    by (blast intro: toArray_mono)
  moreover have "\<exists>segs. out = Inr segs" if "\<forall>m. (m, n) \<in> (calls rv)\<^sup>* \<longrightarrow> \<not> elided m"
    using toArray_never_raises [OF that, of k] out by (cases out) auto
  ultimately show "\<exists>k out. (\<forall>k'\<ge>k. toArray k' rv n = Some out) \<and>
      ((\<forall>m. (m, n) \<in> (calls rv)\<^sup>* \<longrightarrow> \<not> elided m) \<longrightarrow> (\<exists>segs. out = Inr segs))"
    by blast
next
  assume "descending rv"
  then show "wf (calls rv)" by (rule descending_wf)
next
  fix k assume d: "descending rv" and k: "size n + 2 \<le> k"
  then have "(\<Sum>p\<leftarrow>[n]. Suc (size p)) < k" by simp
  from drain_returns [OF d this, of "[]"] show "toArray k rv n \<noteq> None"
    by (auto split: sum.splits)
next
  assume "m \<in> set (successors rv n)"
  then show "size m < size n \<or> (\<exists>obj key. n = MemberExpression obj (Computed key) \<and> rv key = Some m)"
    by (rule successors_smaller_or_resolved)
qed

theorem flatten_terminates_when_resolution_well_founded_witness:
  "descending (resolving (Identifier ''key'') (Literal ''42''))
   \<and> wf (calls (resolving (Identifier ''key'') (Literal ''42'')))
   \<and> toArray 4 (resolving (Identifier ''key'') (Literal ''42''))
        (MemberExpression (Identifier ''foo'') (Computed (Identifier ''key''))) \<noteq> None
   \<and> (\<exists>k out. \<forall>k'\<ge>k. toArray k' (resolving (Identifier ''key'') (Literal ''42''))
        (MemberExpression (Identifier ''foo'') (Computed (Identifier ''key''))) = Some out)
   \<and> Identifier ''foo'' \<in> set (successors (resolving (Identifier ''key'') (Literal ''42''))
        (MemberExpression (Identifier ''foo'') (Computed (Identifier ''key''))))"
proof -
  let ?rv = "resolving (Identifier ''key'') (Literal ''42'')"
  let ?n = "MemberExpression (Identifier ''foo'') (Computed (Identifier ''key''))"
  have d: "descending ?rv"
    by (simp add: descending_def resolving_def)
  have s: "Identifier ''foo'' \<in> set (successors ?rv ?n)"
    by (simp add: resolving_def)
  have b: "size ?n + 2 \<le> (4::nat)" by simp
  note t = flatten_terminates_when_resolution_well_founded
      [where rv = ?rv and n = ?n and m = "Identifier ''foo''"]
  from t d have w: "wf (calls ?rv)" by blast
  from t d b have "toArray 4 ?rv ?n \<noteq> None" by blast
  moreover from t w have "\<exists>k out. \<forall>k'\<ge>k. toArray k' ?rv ?n = Some out" by blast
  ultimately show ?thesis using d w s by blast
qed

section \<open>Properties of parse.js\<close>

lemma map_throwing_Inr_iff:
  "map_throwing f xs = Inr ys \<longleftrightarrow> map f xs = map Inr ys"
proof (induction xs arbitrary: ys)
  case Nil
  then show ?case by auto
next
  case (Cons a xs)
  show ?case
  proof (cases "f a")
    case (Inl x)
    then show ?thesis by (cases ys) auto
  next
    case (Inr b)
    show ?thesis
    proof (cases "map_throwing f xs")
      case (Inl x)
      with Inr Cons.IH show ?thesis by (cases ys) auto
    next
      case r: (Inr bs)
      with Inr Cons.IH [of bs] Cons.IH show ?thesis by (cases ys) auto
    qed
  qed
qed

lemma map_throwing_first_failure:
  "map f pre = map Inr ys \<Longrightarrow> f a = Inl x \<Longrightarrow> map_throwing f (pre @ a # post) = Inl x"
proof (induction pre arbitrary: ys)
  case Nil
  then show ?case by simp
next
  case (Cons p pre)
  then obtain y ys' where ys: "ys = y # ys'" "f p = Inr y" "map f pre = map Inr ys'"
    by (cases ys) auto
  with Cons.IH [OF ys(3) Cons.prems(2)] show ?case by simp
qed

lemma map_throwing_Inl_origin:
  "map_throwing f xs = Inl x \<Longrightarrow> \<exists>a \<in> set xs. f a = Inl x"
  by (induction xs) (auto split: sum.splits)

lemma forEach_append:
  "forEach (hs1 @ hs2) d cd =
     (case forEach hs1 d cd of Inl x \<Rightarrow> Inl x | Inr d' \<Rightarrow> forEach hs2 d' cd)"
  by (induction hs1 arbitrary: d) (auto split: sum.splits)

lemma forEach_Inl_origin:
  "forEach hs d cd = Inl x \<Longrightarrow> \<exists>h \<in> set hs. \<exists>d'. h d' cd = Inl x"
  by (induction hs arbitrary: d) (auto split: sum.splits)

lemma executeHandlers_Inr_iff:
  "executeHandlers deps handlers ns = Inr objs \<longleftrightarrow>
     length objs = length ns \<and> (\<forall>i<length ns. document deps handlers (ns ! i) = Inr (objs ! i))"
  unfolding executeHandlers_def map_throwing_Inr_iff
  by (auto simp: list_eq_iff_nth_eq)

text \<open>
  Claim C1.  Once the source is parsed, the shape of what \<^verbatim>\<open>parse\<close> returns follows the
  shape of what the resolver returned.  For a single node, \<^verbatim>\<open>parse\<close> returns exactly when
  the handler chain returns on that node, and then it returns the one documentation
  object, not wrapped in an array.  For an array of \<open>N \<ge> 1\<close> nodes, \<^verbatim>\<open>parse\<close> returns
  exactly when the chain returns on every node, and then it returns an array of \<open>N\<close>
  documentation objects whose \<open>i\<close>-th element is the one produced from the \<open>i\<close>-th node.
\<close>

theorem parse_cardinality:
  assumes "recast_parse deps src options = Inr program"
  shows "(resolver program = Inr (SingleNode n) \<longrightarrow>
           (parse deps src resolver handlers options = Inr out \<longleftrightarrow>
              (\<exists>obj. document deps handlers n = Inr obj \<and> out = Object obj)))
       \<and> (resolver program = Inr (NodeArray ns) \<and> ns \<noteq> [] \<longrightarrow>
           (parse deps src resolver handlers options = Inr out \<longleftrightarrow>
              (\<exists>objs. out = Objects objs \<and> length objs = length ns \<and>
                 (\<forall>i<length ns. document deps handlers (ns ! i) = Inr (objs ! i)))))"
proof (intro conjI impI)
  assume r: "resolver program = Inr (SingleNode n)"
  show "parse deps src resolver handlers options = Inr out \<longleftrightarrow>
          (\<exists>obj. document deps handlers n = Inr obj \<and> out = Object obj)"
    using assms r
    by (cases "document deps handlers n") (auto simp: parse_def executeHandlers_def)
next
  assume r: "resolver program = Inr (NodeArray ns) \<and> ns \<noteq> []"
  show "parse deps src resolver handlers options = Inr out \<longleftrightarrow>
          (\<exists>objs. out = Objects objs \<and> length objs = length ns \<and>
             (\<forall>i<length ns. document deps handlers (ns ! i) = Inr (objs ! i)))"
  proof (cases "executeHandlers deps handlers ns")
    case (Inl x)
    then have "\<And>objs. executeHandlers deps handlers ns \<noteq> Inr objs" by simp
    then have "\<nexists>objs. length objs = length ns \<and>
        (\<forall>i<length ns. document deps handlers (ns ! i) = Inr (objs ! i))"
      unfolding executeHandlers_Inr_iff by blast
    with Inl assms r show ?thesis by (auto simp: parse_def)
  next
    case (Inr docs)
    then have d: "length docs = length ns \<and>
        (\<forall>i<length ns. document deps handlers (ns ! i) = Inr (docs ! i))"
      unfolding executeHandlers_Inr_iff .
    have "objs = docs" if "length objs = length ns"
        "\<forall>i<length ns. document deps handlers (ns ! i) = Inr (objs ! i)" for objs
      using that d by (auto simp: list_eq_iff_nth_eq)
    with Inr assms r d show ?thesis by (auto simp: parse_def)
  qed
qed

theorem parse_cardinality_witness:
  "recast_parse demo_collaborators ''src'' () = Inr ''src''
   \<and> parse demo_collaborators ''src'' (\<lambda>program. Inr (SingleNode ''A''))
       [displayNameHandler, descriptionHandler] () = Inr (Object (''A'', ''about A''))
   \<and> parse demo_collaborators ''src'' (\<lambda>program. Inr (NodeArray [''A'', ''B'']))
       [displayNameHandler, descriptionHandler] ()
       = Inr (Objects [(''A'', ''about A''), (''B'', ''about B'')])"
proof -
  have p: "recast_parse demo_collaborators ''src'' () = Inr ''src''"
    by (simp add: demo_collaborators_def)
  have a: "document demo_collaborators [displayNameHandler, descriptionHandler] ''A''
             = Inr (''A'', ''about A'')"
    by (simp add: document_def demo_collaborators_def displayNameHandler_def
        descriptionHandler_def)
  have b: "document demo_collaborators [displayNameHandler, descriptionHandler] ''B''
             = Inr (''B'', ''about B'')"
    by (simp add: document_def demo_collaborators_def displayNameHandler_def
        descriptionHandler_def)
  have ix: "\<forall>i<length [''A'', ''B''].
      document demo_collaborators [displayNameHandler, descriptionHandler] ([''A'', ''B''] ! i)
        = Inr ([(''A'', ''about A''), (''B'', ''about B'')] ! i)"
    using a b by (simp add: less_Suc_eq nth_Cons')
  from parse_cardinality [OF p, of "\<lambda>program. Inr (SingleNode ''A'')" "''A''"
      "[displayNameHandler, descriptionHandler]" "Object (''A'', ''about A'')" "[''A'', ''B'']"] a
  have one: "parse demo_collaborators ''src'' (\<lambda>program. Inr (SingleNode ''A''))
       [displayNameHandler, descriptionHandler] () = Inr (Object (''A'', ''about A''))"
    by simp
  from parse_cardinality [OF p, of "\<lambda>program. Inr (NodeArray [''A'', ''B''])" "''A''"
      "[displayNameHandler, descriptionHandler]"
      "Objects [(''A'', ''about A''), (''B'', ''about B'')]" "[''A'', ''B'']"] ix
  have many: "parse demo_collaborators ''src'' (\<lambda>program. Inr (NodeArray [''A'', ''B'']))
       [displayNameHandler, descriptionHandler] ()
       = Inr (Objects [(''A'', ''about A''), (''B'', ''about B'')])"
    by simp
  from p one many show ?thesis by simp
qed

lemma document_Inl_origin:
  "document deps handlers n = Inl x \<Longrightarrow> \<exists>h \<in> set handlers. \<exists>d. h d n = Inl x"
  unfolding document_def
  by (cases "forEach handlers (new_Documentation deps) n") (auto dest: forEach_Inl_origin)

lemma executeHandlers_Inl_origin:
  "executeHandlers deps handlers ns = Inl x \<Longrightarrow> \<exists>h \<in> set handlers. \<exists>d n. h d n = Inl x"
  unfolding executeHandlers_def
  by (blast dest: map_throwing_Inl_origin document_Inl_origin)

text \<open>
  Claim C2.  \<^verbatim>\<open>parse\<close> raises its own error exactly when the source was parsed and the
  resolver returned an empty array or a falsy value, and the error then carries the
  message \<^verbatim>\<open>ERROR_MISSING_DEFINITION\<close>, which is the fixed text.  It is the only error that
  \<^verbatim>\<open>parse\<close> raises itself: every other failure of \<^verbatim>\<open>parse\<close> is a value thrown by the
  parser, by the resolver or by one of the handlers, passed on unchanged.
\<close>

theorem parse_missing_definition:
  "(parse deps src resolver handlers options = Inl (Error m) \<longleftrightarrow>
      (\<exists>program. recast_parse deps src options = Inr program \<and>
         (resolver program = Inr (NodeArray []) \<or> resolver program = Inr Falsy)) \<and>
      m = ERROR_MISSING_DEFINITION)
   \<and> ERROR_MISSING_DEFINITION = ''No suitable component definition found.''
   \<and> (parse deps src resolver handlers options = Inl (Thrown x) \<longrightarrow>
        recast_parse deps src options = Inl x \<or>
        (\<exists>program. recast_parse deps src options = Inr program \<and>
           (resolver program = Inl x \<or> (\<exists>h \<in> set handlers. \<exists>d n. h d n = Inl x))))"
proof (intro conjI impI)
  show "parse deps src resolver handlers options = Inl (Error m) \<longleftrightarrow>
      (\<exists>program. recast_parse deps src options = Inr program \<and>
         (resolver program = Inr (NodeArray []) \<or> resolver program = Inr Falsy)) \<and>
      m = ERROR_MISSING_DEFINITION"
    by (auto simp: parse_def split: sum.splits resolved.splits if_splits)
  show "ERROR_MISSING_DEFINITION = ''No suitable component definition found.''"
    by (simp add: ERROR_MISSING_DEFINITION_def)
  assume "parse deps src resolver handlers options = Inl (Thrown x)"
  then show "recast_parse deps src options = Inl x \<or>
        (\<exists>program. recast_parse deps src options = Inr program \<and>
           (resolver program = Inl x \<or> (\<exists>h \<in> set handlers. \<exists>d n. h d n = Inl x)))"
    by (auto simp: parse_def split: sum.splits resolved.splits if_splits
        dest: executeHandlers_Inl_origin)
qed

theorem parse_missing_definition_witness:
  "parse demo_collaborators ''src'' (\<lambda>program. Inr (NodeArray []))
       [displayNameHandler] () = Inl (Error ''No suitable component definition found.'')
   \<and> parse demo_collaborators ''src'' (\<lambda>program. Inr Falsy)
       [displayNameHandler] () = Inl (Error ''No suitable component definition found.'')
   \<and> parse demo_collaborators ''src'' (\<lambda>program. Inr (SingleNode ''Bad''))
       [failingHandler] () = Inl (Thrown ''boom'')
   \<and> failingHandler ([], []) ''Bad'' = Inl ''boom''"
proof -
  have p: "recast_parse demo_collaborators ''src'' () = Inr ''src''"
    by (simp add: demo_collaborators_def)
  have e: "parse demo_collaborators ''src'' (\<lambda>program. Inr (NodeArray []))
       [displayNameHandler] () = Inl (Error ''No suitable component definition found.'')"
    using p
    by (simp add: parse_missing_definition [of demo_collaborators "''src''"
          "\<lambda>program. Inr (NodeArray [])" "[displayNameHandler]" "()"
          "''No suitable component definition found.''" "[]", THEN conjunct1]
        ERROR_MISSING_DEFINITION_def)
  have f: "parse demo_collaborators ''src'' (\<lambda>program. Inr Falsy)
       [displayNameHandler] () = Inl (Error ''No suitable component definition found.'')"
    using p
    by (simp add: parse_missing_definition [of demo_collaborators "''src''"
          "\<lambda>program. Inr Falsy" "[displayNameHandler]" "()"
          "''No suitable component definition found.''" "[]", THEN conjunct1]
        ERROR_MISSING_DEFINITION_def)
  have t: "parse demo_collaborators ''src'' (\<lambda>program. Inr (SingleNode ''Bad''))
       [failingHandler] () = Inl (Thrown ''boom'')"
    by (simp add: parse_def executeHandlers_def document_def demo_collaborators_def
        failingHandler_def)
  have h: "failingHandler ([], []) ''Bad'' = Inl ''boom''"
    by (simp add: failingHandler_def)
  from e f t h show ?thesis by simp
qed

text \<open>
  Claim C8.  In a batch of definitions, let the handler chain return on the earlier
  definitions and let one handler throw \<open>x\<close> on a later one, after the handlers before it
  have returned.  Then the whole call of \<^verbatim>\<open>parse\<close> fails with \<open>x\<close> unchanged, and so it
  returns no documentation objects, none for the earlier definitions either.
\<close>

theorem handler_error_fails_batch:
  assumes "recast_parse deps src options = Inr program"
    and "resolver program = Inr (NodeArray (earlier @ n # later))"
    and "map (document deps handlers) earlier = map Inr objs"
    and "handlers = before @ h # after"
    and "forEach before (new_Documentation deps) n = Inr d"
    and "h d n = Inl x"
  shows "parse deps src resolver handlers options = Inl (Thrown x)"
proof -
  have "forEach handlers (new_Documentation deps) n = Inl x"
    using assms(4-6) by (simp add: forEach_append)
  then have "document deps handlers n = Inl x"
    by (simp add: document_def)
  with assms(3) have "executeHandlers deps handlers (earlier @ n # later) = Inl x"
    unfolding executeHandlers_def by (rule map_throwing_first_failure)
  with assms(1,2) show ?thesis
    by (simp add: parse_def)
qed

theorem handler_error_fails_batch_witness:
  "parse demo_collaborators ''src'' (\<lambda>program. Inr (NodeArray [''A'', ''Bad'', ''C'']))
     [displayNameHandler, failingHandler, descriptionHandler] () = Inl (Thrown ''boom'')
   \<and> document demo_collaborators [displayNameHandler, failingHandler, descriptionHandler] ''A''
       = Inr (''A'', ''about A'')"
proof -
  have p: "recast_parse demo_collaborators ''src'' () = Inr ''src''"
    by (simp add: demo_collaborators_def)
  have a: "document demo_collaborators [displayNameHandler, failingHandler, descriptionHandler] ''A''
       = Inr (''A'', ''about A'')"
    by (simp add: document_def demo_collaborators_def displayNameHandler_def
        descriptionHandler_def failingHandler_def)
  then have m: "map (document demo_collaborators
        [displayNameHandler, failingHandler, descriptionHandler]) [''A'']
      = map Inr [(''A'', ''about A'')]"
    by simp
  have b: "forEach [displayNameHandler] (new_Documentation demo_collaborators) ''Bad''
      = Inr (''Bad'', [])"
    by (simp add: demo_collaborators_def displayNameHandler_def)
  have c: "failingHandler (''Bad'', []) ''Bad'' = Inl ''boom''"
    by (simp add: failingHandler_def)
  have "parse demo_collaborators ''src'' (\<lambda>program. Inr (NodeArray ([''A''] @ ''Bad'' # [''C''])))
     ([displayNameHandler] @ failingHandler # [descriptionHandler]) () = Inl (Thrown ''boom'')"
    using handler_error_fails_batch [of demo_collaborators "''src''" "()" "''src''"
        "\<lambda>program. Inr (NodeArray ([''A''] @ ''Bad'' # [''C'']))" "[''A'']" "''Bad''" "[''C'']"
        "[displayNameHandler] @ failingHandler # [descriptionHandler]" "[(''A'', ''about A'')]"
        "[displayNameHandler]" failingHandler "[descriptionHandler]" "(''Bad'', [])" "''boom''"]
      p m b c
    by simp
  with a show ?thesis by simp
qed

lemma forEach_pure_handlers:
  "forEach (map pure_handler fs) d cd = Inr (foldl (\<lambda>d f. f d cd) d fs)"
  by (induction fs arbitrary: d) (auto simp: pure_handler_def)

lemma executeHandlers_pure:
  "executeHandlers deps (map pure_handler fs) cds =
     Inr (map (\<lambda>cd. postProcessDocumentation deps
                 (toObject deps (foldl (\<lambda>d f. f d cd) (new_Documentation deps) fs))) cds)"
proof -
  have "document deps (map pure_handler fs) cd =
      Inr (postProcessDocumentation deps
             (toObject deps (foldl (\<lambda>d f. f d cd) (new_Documentation deps) fs)))" for cd
    by (simp add: document_def forEach_pure_handlers)
  then show ?thesis
    unfolding executeHandlers_def by (simp add: map_throwing_Inr_iff)
qed

text \<open>
  Claim C7.  For each definition \<^verbatim>\<open>executeHandlers\<close> starts from a fresh documentation
  record, folds the handlers over it from left to right, each handler applied once to the
  record left by the one before it and to that same definition, and normalises the record
  only after the last handler.  A chain of handlers is the chain of its first part
  followed, on the record that part leaves, by the rest.  The order is observable: with a
  handler that writes the display name and one that reads it to write the description,
  the two orders give different documentation objects.
\<close>

theorem handlers_run_in_order:
  "executeHandlers deps (map pure_handler fs) cds =
     Inr (map (\<lambda>cd. postProcessDocumentation deps
                 (toObject deps (foldl (\<lambda>d f. f d cd) (new_Documentation deps) fs))) cds)
   \<and> forEach (hs1 @ hs2) d cd =
       (case forEach hs1 d cd of Inl x \<Rightarrow> Inl x | Inr d' \<Rightarrow> forEach hs2 d' cd)
   \<and> executeHandlers demo_collaborators [displayNameHandler, descriptionHandler] [''A'']
       = Inr [(''A'', ''about A'')]
   \<and> executeHandlers demo_collaborators [descriptionHandler, displayNameHandler] [''A'']
       = Inr [(''A'', ''about '')]"
proof (intro conjI)
  show "executeHandlers deps (map pure_handler fs) cds =
     Inr (map (\<lambda>cd. postProcessDocumentation deps
                 (toObject deps (foldl (\<lambda>d f. f d cd) (new_Documentation deps) fs))) cds)"
    by (rule executeHandlers_pure)
  show "forEach (hs1 @ hs2) d cd =
       (case forEach hs1 d cd of Inl x \<Rightarrow> Inl x | Inr d' \<Rightarrow> forEach hs2 d' cd)"
    by (rule forEach_append)
  show "executeHandlers demo_collaborators [displayNameHandler, descriptionHandler] [''A'']
       = Inr [(''A'', ''about A'')]"
    by (simp add: executeHandlers_def document_def demo_collaborators_def
        displayNameHandler_def descriptionHandler_def)
  show "executeHandlers demo_collaborators [descriptionHandler, displayNameHandler] [''A'']
       = Inr [(''A'', ''about '')]"
    by (simp add: executeHandlers_def document_def demo_collaborators_def
        displayNameHandler_def descriptionHandler_def)
qed

end
